theory Spec2Isabelle
  imports Main "HOL-Library.Word" "HOL-Library.Monad_Syntax"
begin

unbundle bit_operations_syntax

section \<open>Bytes, slices and strings\<close>

text \<open>
  A Go \<open>[]byte\<close> is a list of 8-bit words. Where the code tells a nil slice from
  an empty one (\<open>digest == nil\<close>, \<open>return nil, nil\<close>), the slice is a
  \<open>bytes option\<close> and \<open>None\<close> is nil. A Go \<open>string\<close> is a \<open>string\<close>;
  \<open>[]byte(msg)\<close> is \<open>bytes_of_string\<close>.
\<close>

type_synonym byte = "8 word"
type_synonym bytes = "byte list"
type_synonym u32 = "32 word"
type_synonym u64 = "64 word"

definition bytes_of_string :: "string \<Rightarrow> bytes" where
  "bytes_of_string s = map of_char s"

definition string_of_bytes :: "bytes \<Rightarrow> string" where
  "string_of_bytes bs = map (\<lambda>b. char_of (unat b)) bs"

section \<open>crypto/sha256\<close>

text \<open>
  The hash object of Go's \<open>crypto/sha256\<close>, which \<open>Sha256bytes2bytes\<close> drives through
  \<open>New\<close>, \<open>Write\<close> and \<open>Sum\<close>: the chaining value \<open>h\<close>, the buffered
  partial block \<open>x\<close> (Go keeps \<open>x [64]byte\<close> and \<open>nx\<close>; here \<open>dig_x\<close> is
  the buffered prefix and \<open>nx\<close> its length) and the byte count \<open>len\<close>, a
  \<open>uint64\<close>. The fields carry the prefix \<open>dig_\<close>.
\<close>

type_synonym hvec = "u32 \<times> u32 \<times> u32 \<times> u32 \<times> u32 \<times> u32 \<times> u32 \<times> u32"

record digest =
  dig_h :: hvec
  dig_x :: bytes
  dig_len :: u64

definition chunk :: nat where
  "chunk = 64"

definition Size :: nat where
  "Size = 32"

definition K256 :: "u32 list" where
  "K256 = [
    0x428A2F98, 0x71374491, 0xB5C0FBCF, 0xE9B5DBA5, 0x3956C25B, 0x59F111F1, 0x923F82A4, 0xAB1C5ED5,
    0xD807AA98, 0x12835B01, 0x243185BE, 0x550C7DC3, 0x72BE5D74, 0x80DEB1FE, 0x9BDC06A7, 0xC19BF174,
    0xE49B69C1, 0xEFBE4786, 0x0FC19DC6, 0x240CA1CC, 0x2DE92C6F, 0x4A7484AA, 0x5CB0A9DC, 0x76F988DA,
    0x983E5152, 0xA831C66D, 0xB00327C8, 0xBF597FC7, 0xC6E00BF3, 0xD5A79147, 0x06CA6351, 0x14292967,
    0x27B70A85, 0x2E1B2138, 0x4D2C6DFC, 0x53380D13, 0x650A7354, 0x766A0ABB, 0x81C2C92E, 0x92722C85,
    0xA2BFE8A1, 0xA81A664B, 0xC24B8B70, 0xC76C51A3, 0xD192E819, 0xD6990624, 0xF40E3585, 0x106AA070,
    0x19A4C116, 0x1E376C08, 0x2748774C, 0x34B0BCB5, 0x391C0CB3, 0x4ED8AA4A, 0x5B9CCA4F, 0x682E6FF3,
    0x748F82EE, 0x78A5636F, 0x84C87814, 0x8CC70208, 0x90BEFFFA, 0xA4506CEB, 0xBEF9A3F7, 0xC67178F2]"

definition init_h :: hvec where
  "init_h = (0x6A09E667, 0xBB67AE85, 0x3C6EF372, 0xA54FF53A,
             0x510E527F, 0x9B05688C, 0x1F83D9AB, 0x5BE0CD19)"

definition sha256_New :: digest where
  "sha256_New = \<lparr>dig_h = init_h, dig_x = [], dig_len = 0\<rparr>"

definition BeUint32 :: "byte \<Rightarrow> byte \<Rightarrow> byte \<Rightarrow> byte \<Rightarrow> u32" where
  "BeUint32 b0 b1 b2 b3 =
     push_bit 24 (ucast b0) OR push_bit 16 (ucast b1) OR push_bit 8 (ucast b2) OR ucast b3"

definition BePutUint32 :: "u32 \<Rightarrow> bytes" where
  "BePutUint32 v = [ucast (drop_bit 24 v), ucast (drop_bit 16 v), ucast (drop_bit 8 v), ucast v]"

definition BePutUint64 :: "u64 \<Rightarrow> bytes" where
  "BePutUint64 v =
     [ucast (drop_bit 56 v), ucast (drop_bit 48 v), ucast (drop_bit 40 v), ucast (drop_bit 32 v),
      ucast (drop_bit 24 v), ucast (drop_bit 16 v), ucast (drop_bit 8 v), ucast v]"

text \<open>The first loop of \<open>blockGeneric\<close>: the sixteen big-endian words of a block.\<close>

fun load_words :: "bytes \<Rightarrow> u32 list" where
  "load_words (b0 # b1 # b2 # b3 # p) = BeUint32 b0 b1 b2 b3 # load_words p"
| "load_words _ = []"

text \<open>The second loop: \<open>w[i]\<close> for \<open>i\<close> from 16 to 63, \<open>i\<close> being the length of \<open>w\<close>.\<close>

fun schedule :: "nat \<Rightarrow> u32 list \<Rightarrow> u32 list" where
  "schedule 0 w = w"
| "schedule (Suc k) w =
     (let i = length w;
          v1 = w ! (i - 2);
          t1 = word_rotr 17 v1 XOR word_rotr 19 v1 XOR drop_bit 10 v1;
          v2 = w ! (i - 15);
          t2 = word_rotr 7 v2 XOR word_rotr 18 v2 XOR drop_bit 3 v2
      in schedule k (w @ [t1 + w ! (i - 7) + t2 + w ! (i - 16)]))"

text \<open>One pass of the third loop, for the round constant \<open>k\<close> and the word \<open>wi\<close>.\<close>

fun round256 :: "hvec \<Rightarrow> u32 \<times> u32 \<Rightarrow> hvec" where
  "round256 (a, b, c, d, e, f, g, hh) (k, wi) =
     (let t1 = hh + (word_rotr 6 e XOR word_rotr 11 e XOR word_rotr 25 e)
                  + ((e AND f) XOR (NOT e AND g)) + k + wi;
          t2 = (word_rotr 2 a XOR word_rotr 13 a XOR word_rotr 22 a)
                  + ((a AND b) XOR (a AND c) XOR (b AND c))
      in (t1 + t2, a, b, c, d + t1, e, f, g))"

fun add_hvec :: "hvec \<Rightarrow> hvec \<Rightarrow> hvec" where
  "add_hvec (h0, h1, h2, h3, h4, h5, h6, h7) (a, b, c, d, e, f, g, hh) =
     (h0 + a, h1 + b, h2 + c, h3 + d, h4 + e, h5 + f, h6 + g, h7 + hh)"

definition block1 :: "hvec \<Rightarrow> bytes \<Rightarrow> hvec" where
  "block1 hv p = add_hvec hv (foldl round256 hv (zip K256 (schedule 48 (load_words p))))"

text \<open>\<open>blockGeneric\<close>: the outer loop \<open>for len(p) >= chunk\<close>.\<close>

function blockGeneric :: "hvec \<Rightarrow> bytes \<Rightarrow> hvec" where
  "blockGeneric hv p =
     (if length p \<ge> chunk then blockGeneric (block1 hv (take chunk p)) (drop chunk p) else hv)"
  by pat_completeness auto
termination
  by (relation "measure (\<lambda>(hv, p). length p)") (auto simp: chunk_def)

declare blockGeneric.simps [simp del]

text \<open>
  \<open>Write\<close>: the buffered bytes and the new ones are hashed block by block, and what
  is left, shorter than a block, is buffered.
\<close>

definition sha256_Write :: "digest \<Rightarrow> bytes \<Rightarrow> digest" where
  "sha256_Write d p =
     (let buf = dig_x d @ p;
          n = length buf - length buf mod chunk
      in \<lparr>dig_h = blockGeneric (dig_h d) (take n buf),
          dig_x = drop n buf,
          dig_len = dig_len d + of_nat (length p)\<rparr>)"

definition checkSum :: "digest \<Rightarrow> bytes" where
  "checkSum d =
     (let l = dig_len d;
          t = (if unat (l mod 64) < 56 then 56 - unat (l mod 64) else 64 + 56 - unat (l mod 64));
          padlen = (0x80 # replicate (t - 1) 0) @ BePutUint64 (push_bit 3 l);
          d' = sha256_Write d padlen
      in case dig_h d' of (h0, h1, h2, h3, h4, h5, h6, h7) \<Rightarrow>
           BePutUint32 h0 @ BePutUint32 h1 @ BePutUint32 h2 @ BePutUint32 h3 @
           BePutUint32 h4 @ BePutUint32 h5 @ BePutUint32 h6 @ BePutUint32 h7)"

definition sha256_Sum :: "digest \<Rightarrow> bytes \<Rightarrow> bytes" where
  "sha256_Sum d b = b @ checkSum d"

section \<open>Sha256bytes2bytes\<close>

text \<open>
  \<open>msgHash := sha256.New(); msgHash.Write(bytes); return msgHash.Sum(nil)\<close>.
  \<open>Write\<close> of a hash never returns an error, and the code drops what it returns.
\<close>

definition Sha256bytes2bytes :: "bytes \<Rightarrow> bytes" where
  "Sha256bytes2bytes bs = sha256_Sum (sha256_Write sha256_New bs) []"

section \<open>Errors\<close>

text \<open>
  A Go \<open>error\<close> is either made here by \<open>errors.New\<close>, or a value that a call into
  the standard library returned (\<open>rsa.ErrVerification\<close>, a
  \<open>base64.CorruptInputError\<close>, an \<open>*fs.PathError\<close>) and that the package hands
  on as it is. Both carry the text that \<open>err.Error()\<close> gives. The library calls
  of the model return that text (a \<open>lib_error\<close>); \<open>Foreign\<close> is such a value
  handed on, so no \<open>errors.New\<close> of this package is taken for a library value.
  A run-time panic is not an error value in Go: the function does not return, its
  deferred calls run and the panic goes on to the caller. \<open>Panic\<close> stands for that
  outcome.
\<close>

type_synonym lib_error = string

datatype error = New string | Foreign lib_error | Panic string

fun Error :: "error \<Rightarrow> string" where
  "Error (New s) = s"
| "Error (Foreign s) = s"
| "Error (Panic s) = s"

text \<open>
  Modelled from the spec: \<open>CurrentFunctionName\<close> is a helper of this package that is
  not among the sources; the spec has it as the "helper for reporting the calling
  function's name (used purely for error-message context)". The caller is passed
  explicitly and its name is the result.
\<close>

definition CurrentFunctionName :: "string \<Rightarrow> string" where
  "CurrentFunctionName caller = caller"

section \<open>encoding/base64, the standard encoding\<close>

text \<open>
  The package works on bytes (\<open>Encode\<close>, \<open>Decode\<close>); \<open>EncodeToString\<close> and
  \<open>DecodeString\<close> convert.
\<close>

definition encodeStd :: bytes where
  "encodeStd =
     bytes_of_string ''ABCDEFGHIJKLMNOPQRSTUVWXYZabcdefghijklmnopqrstuvwxyz0123456789+/''"

definition padChar :: byte where
  "padChar = 0x3D"

definition enc_char :: "u32 \<Rightarrow> byte" where
  "enc_char v = encodeStd ! unat (v AND 0x3F)"

text \<open>
  \<open>Encoding.Encode\<close>: three bytes give four characters; one or two bytes left over
  give two or three characters and the padding.
\<close>

fun base64_Encode :: "bytes \<Rightarrow> bytes" where
  "base64_Encode (b0 # b1 # b2 # src) =
     (let val = push_bit 16 (ucast b0) OR push_bit 8 (ucast b1) OR ucast b2
      in enc_char (drop_bit 18 val) # enc_char (drop_bit 12 val) #
         enc_char (drop_bit 6 val) # enc_char val # base64_Encode src)"
| "base64_Encode [b0, b1] =
     (let val = push_bit 16 (ucast b0) OR push_bit 8 (ucast b1)
      in [enc_char (drop_bit 18 val), enc_char (drop_bit 12 val),
          enc_char (drop_bit 6 val), padChar])"
| "base64_Encode [b0] =
     (let val = push_bit 16 (ucast b0)
      in [enc_char (drop_bit 18 val), enc_char (drop_bit 12 val), padChar, padChar])"
| "base64_Encode [] = []"

definition EncodeToString :: "bytes \<Rightarrow> string" where
  "EncodeToString src = string_of_bytes (base64_Encode src)"

text \<open>\<open>decodeMap\<close>: the position in the alphabet, \<open>0xFF\<close> for any other character.\<close>

fun index_of :: "'a \<Rightarrow> 'a list \<Rightarrow> nat option" where
  "index_of c [] = None"
| "index_of c (a # as) = (if c = a then Some 0 else map_option Suc (index_of c as))"

definition decodeMap :: "byte \<Rightarrow> byte" where
  "decodeMap c = (case index_of c encodeStd of Some i \<Rightarrow> of_nat i | None \<Rightarrow> 0xFF)"

definition is_newline :: "byte \<Rightarrow> bool" where
  "is_newline c \<longleftrightarrow> c = 0x0A \<or> c = 0x0D"

text \<open>
  The end of \<open>decodeQuantum\<close>: the \<open>dlen\<close> six-bit values read into \<open>dbuf\<close>
  (the rest of \<open>dbuf\<close> is zero) give \<open>dlen - 1\<close> bytes. The standard encoding is
  not strict: bits left over in the last value are dropped.
\<close>

definition assemble :: "byte \<Rightarrow> byte \<Rightarrow> byte \<Rightarrow> byte \<Rightarrow> u32" where
  "assemble d0 d1 d2 d3 =
     push_bit 18 (ucast d0) OR push_bit 12 (ucast d1) OR push_bit 6 (ucast d2) OR ucast d3"

definition quantum :: "byte list \<Rightarrow> bytes" where
  "quantum dbuf =
     (let d = dbuf @ replicate (4 - length dbuf) 0;
          val = assemble (d ! 0) (d ! 1) (d ! 2) (d ! 3)
      in take (length dbuf - 1) [ucast (drop_bit 16 val), ucast (drop_bit 8 val), ucast val])"

text \<open>
  \<open>Encoding.Decode\<close>, the loop over \<open>decodeQuantum\<close>, as one recursion on the
  input with the values read so far for the current quantum; \<open>None\<close> is a
  \<open>CorruptInputError\<close>. Line breaks are skipped wherever they stand; padding is
  legal only as the third and fourth or as the fourth character of the last quantum,
  and only line breaks may follow it. (The word-at-a-time fast paths of \<open>Decode\<close>
  handle runs of alphabet characters the same way and are not told apart.)
\<close>

fun decode_loop :: "bytes \<Rightarrow> byte list \<Rightarrow> bytes option" where
  "decode_loop [] dbuf = (if dbuf = [] then Some [] else None)"
| "decode_loop (c # src) dbuf =
     (if decodeMap c \<noteq> 0xFF then
        (if length dbuf = 3
         then map_option (\<lambda>r. quantum (dbuf @ [decodeMap c]) @ r) (decode_loop src [])
         else decode_loop src (dbuf @ [decodeMap c]))
      else if is_newline c then decode_loop src dbuf
      else if c \<noteq> padChar then None
      else if length dbuf < 2 then None
      else if length dbuf = 2 then
        (case dropWhile is_newline src of
           [] \<Rightarrow> None
         | c2 # src2 \<Rightarrow>
             if c2 \<noteq> padChar then None
             else if dropWhile is_newline src2 \<noteq> [] then None
             else Some (quantum dbuf))
      else if dropWhile is_newline src \<noteq> [] then None
      else Some (quantum dbuf))"

definition CorruptInputError :: lib_error where
  "CorruptInputError = ''illegal base64 data''"

definition base64_Decode :: "bytes \<Rightarrow> lib_error + bytes" where
  "base64_Decode src = (case decode_loop src [] of None \<Rightarrow> Inl CorruptInputError | Some b \<Rightarrow> Inr b)"

definition DecodeString :: "string \<Rightarrow> lib_error + bytes" where
  "DecodeString s = base64_Decode (bytes_of_string s)"

section \<open>crypto/rsa\<close>

text \<open>
  The keys as \<open>crypto/rsa\<close> declares them: \<open>PublicKey\<close> with the modulus \<open>N\<close>
  and the exponent \<open>E\<close>; \<open>PrivateKey\<close> embedding its \<open>PublicKey\<close>, with the
  private exponent \<open>D\<close> and the prime factors. (\<open>Precomputed\<close> is derived from
  these fields and is not part of a key's identity.) A \<open>*rsa.PublicKey\<close> that may be
  nil is a \<open>PublicKey option\<close>.
\<close>

record PublicKey =
  N :: int
  E :: int

record PrivateKey =
  PublicKey :: PublicKey
  D :: int
  Primes :: "int list"

datatype crypto_Hash = SHA1 | SHA224 | SHA256 | SHA384 | SHA512

record PSSOptions =
  SaltLength :: int
  Hash :: "crypto_Hash option"

definition PSSSaltLengthAuto :: int where
  "PSSSaltLengthAuto = 0"

text \<open>
  The three functions of \<open>crypto/rsa\<close> that the package calls. They are not part of
  this repository and stay parameters: \<open>'r\<close> is what \<open>rand.Reader\<close> delivers to a
  call, \<open>GenerateKey\<close> and \<open>SignPSS\<close> read it and can fail, \<open>VerifyPSS\<close>
  returns nil (\<open>None\<close>) or an error.
\<close>

record 'r rsa_lib =
  GenerateKey :: "'r \<Rightarrow> nat \<Rightarrow> lib_error + PrivateKey"
  SignPSS :: "'r \<Rightarrow> PrivateKey \<Rightarrow> crypto_Hash \<Rightarrow> bytes \<Rightarrow> PSSOptions \<Rightarrow> lib_error + bytes"
  VerifyPSS :: "PublicKey \<Rightarrow> crypto_Hash \<Rightarrow> bytes \<Rightarrow> bytes \<Rightarrow> PSSOptions \<Rightarrow> lib_error option"

definition bitSize :: nat where
  "bitSize = 4096"

section \<open>Signing and verifying\<close>

text \<open>
  \<open>var opts rsa.PSSOptions; opts.SaltLength = rsa.PSSSaltLengthAuto\<close>, as both
  \<open>SignByteArray\<close> and \<open>VerifyByteArray\<close> begin.
\<close>

definition opts_auto :: PSSOptions where
  "opts_auto = \<lparr>SaltLength = PSSSaltLengthAuto, Hash = None\<rparr>"

definition slice :: "bytes option \<Rightarrow> bytes" where
  "slice b = (case b of None \<Rightarrow> [] | Some bs \<Rightarrow> bs)"

text \<open>
  \<open>SignByteArray\<close> returns \<open>([]byte, error)\<close>: the pair of a slice that may be nil
  and an error that may be nil.
\<close>

definition SignByteArray ::
  "'r rsa_lib \<Rightarrow> 'r \<Rightarrow> PrivateKey option \<Rightarrow> bytes option \<Rightarrow> bytes option \<times> error option" where
  "SignByteArray lib rand_Reader key digest =
     (case key of
        None \<Rightarrow> (None, None)
      | Some k \<Rightarrow>
          (case SignPSS lib rand_Reader k SHA256 (slice digest) opts_auto of
             Inl err \<Rightarrow> (None, Some (New (CurrentFunctionName ''SignByteArray'' @ '':'' @ err)))
           | Inr signature \<Rightarrow> (Some signature, None)))"

definition SignByteArray2Base64 ::
  "'r rsa_lib \<Rightarrow> 'r \<Rightarrow> PrivateKey option \<Rightarrow> bytes option \<Rightarrow> string \<times> error option" where
  "SignByteArray2Base64 lib rand_Reader key digest =
     (case SignByteArray lib rand_Reader key digest of
        (sig, Some err) \<Rightarrow>
          ([], Some (New (CurrentFunctionName ''SignByteArray2Base64'' @ '':'' @ Error err)))
      | (sig, None) \<Rightarrow> (EncodeToString (slice sig), None))"

text \<open>
  \<open>VerifyByteArray\<close>: the parameter the source calls \<open>digest\<close> is the signature;
  the digest that is checked is recomputed from \<open>msg\<close>. (\<open>CondDebugln\<close> only logs.)
\<close>

definition VerifyByteArray ::
  "'r rsa_lib \<Rightarrow> PublicKey option \<Rightarrow> bytes option \<Rightarrow> string \<Rightarrow> error option" where
  "VerifyByteArray lib key digest msg =
     (case key of
        None \<Rightarrow> Some (New (CurrentFunctionName ''VerifyByteArray'' @ '':Error, public key is nil''))
      | Some k \<Rightarrow>
          (case digest of
             None \<Rightarrow> Some (New (CurrentFunctionName ''VerifyByteArray'' @ '':Error, digest is nil''))
           | Some sig \<Rightarrow>
               (let plaintestDigest = Sha256bytes2bytes (bytes_of_string msg)
                in map_option Foreign (VerifyPSS lib k SHA256 plaintestDigest sig opts_auto))))"

text \<open>\<open>DecodeString\<close> returns a slice that is never nil, also for the empty string.\<close>

definition VerifyBase64String ::
  "'r rsa_lib \<Rightarrow> PublicKey option \<Rightarrow> string \<Rightarrow> string \<Rightarrow> error option" where
  "VerifyBase64String lib key b64 msg =
     (case DecodeString b64 of
        Inl err \<Rightarrow>
          Some (New (CurrentFunctionName ''VerifyBase64String'' @ '':Error, decoding base64 string''))
      | Inr signatureByte \<Rightarrow> VerifyByteArray lib key (Some signatureByte) msg)"

section \<open>Key pair generation\<close>

definition CreateRSAKeyPair ::
  "'r rsa_lib \<Rightarrow> 'r \<Rightarrow> PrivateKey option \<times> PublicKey option \<times> error option" where
  "CreateRSAKeyPair lib rand_Reader =
     (case GenerateKey lib rand_Reader bitSize of
        Inl err \<Rightarrow>
          (None, None, Some (New (CurrentFunctionName ''CreateRSAKeyPair'' @ ''key creation:'' @ err)))
      | Inr privateKey \<Rightarrow> (Some privateKey, Some (PublicKey privateKey), None))"

section \<open>math/big: bytes and modular inverse\<close>

text \<open>\<open>Int.Bytes\<close>: the absolute value, big-endian, without leading zeros.\<close>

function nat_bytes :: "nat \<Rightarrow> bytes" where
  "nat_bytes n = (if n = 0 then [] else nat_bytes (n div 256) @ [of_nat (n mod 256)])"
  by pat_completeness auto
termination
  by (relation "measure id") auto

declare nat_bytes.simps [simp del]

text \<open>\<open>Int.SetBytes\<close>: the big-endian unsigned value of a byte sequence.\<close>

definition bytes_nat :: "bytes \<Rightarrow> nat" where
  "bytes_nat bs = foldl (\<lambda>a b. a * 256 + unat b) 0 bs"

text \<open>
  The extended Euclidean algorithm: \<open>xgcd a b = (s, t)\<close> with
  \<open>s * a + t * b = gcd a b\<close>.
\<close>

function xgcd :: "nat \<Rightarrow> nat \<Rightarrow> int \<times> int" where
  "xgcd a b =
     (if b = 0 then (1, 0)
      else (case xgcd b (a mod b) of (s, t) \<Rightarrow> (t, s - t * int (a div b))))"
  by pat_completeness auto
termination
  by (relation "measure (\<lambda>(a, b). b)") auto

declare xgcd.simps [simp del]

text \<open>
  \<open>Int.ModInverse(g, n)\<close>: the inverse of \<open>g\<close> in the ring of integers modulo
  \<open>n\<close>, in the range from 0 below \<open>|n|\<close>; nil (\<open>None\<close>) when \<open>g\<close> and \<open>n\<close>
  are not relatively prime.
\<close>

definition ModInverse :: "int \<Rightarrow> int \<Rightarrow> int option" where
  "ModInverse g n =
     (let n' = \<bar>n\<bar>; g' = g mod n'
      in if gcd g' n' \<noteq> 1 then None
         else Some (fst (xgcd (nat g') (nat n')) mod n'))"

section \<open>encoding/asn1: DER\<close>

text \<open>
  The length octets of an element: one byte below 128, else the count of length
  bytes with the top bit set, and the length big-endian.
\<close>

definition asn1_length :: "nat \<Rightarrow> bytes" where
  "asn1_length n =
     (if n < 128 then [of_nat n]
      else (let bs = nat_bytes n in (0x80 OR of_nat (length bs)) # bs))"

definition asn1_element :: "byte \<Rightarrow> bytes \<Rightarrow> bytes" where
  "asn1_element tag body = tag # asn1_length (length body) @ body"

definition TagInteger :: byte where "TagInteger = 0x02"
definition TagBitString :: byte where "TagBitString = 0x03"
definition TagNull :: byte where "TagNull = 0x05"
definition TagOID :: byte where "TagOID = 0x06"
definition TagSequence :: byte where "TagSequence = 0x30"

text \<open>
  \<open>makeBigInt\<close>: the content of an INTEGER, minimal two's complement. A positive
  value whose first byte has the top bit set gets a leading \<open>0x00\<close>; zero is one
  zero byte. A Go \<open>int\<close> is encoded to the same bytes.
\<close>

definition makeBigInt :: "int \<Rightarrow> bytes" where
  "makeBigInt n =
     (if n < 0 then
        (let bs = map (\<lambda>b. NOT b) (nat_bytes (nat (- n - 1)))
         in if bs = [] \<or> hd bs AND 0x80 = 0 then 0xFF # bs else bs)
      else if n = 0 then [0x00]
      else
        (let bs = nat_bytes (nat n)
         in if hd bs AND 0x80 \<noteq> 0 then 0x00 # bs else bs))"

definition marshal_INTEGER :: "int \<Rightarrow> bytes" where
  "marshal_INTEGER n = asn1_element TagInteger (makeBigInt n)"

definition marshal_SEQUENCE :: "bytes \<Rightarrow> bytes" where
  "marshal_SEQUENCE body = asn1_element TagSequence body"

text \<open>
  \<open>parseTagAndLength\<close>, for the long form of the length: \<open>numBytes\<close> bytes,
  big-endian; a length of \<open>2^23\<close> or more cannot be shifted further ("length too
  large"), a leading zero byte is superfluous.
\<close>

fun parse_long_length :: "nat \<Rightarrow> bytes \<Rightarrow> nat \<Rightarrow> (nat \<times> bytes) option" where
  "parse_long_length k [] acc = (if k = 0 then Some (acc, []) else None)"
| "parse_long_length k (b # bs) acc =
     (if k = 0 then Some (acc, b # bs)
      else if acc \<ge> 2 ^ 23 then None
      else (let acc' = acc * 256 + unat b
            in if acc' = 0 then None else parse_long_length (k - 1) bs acc'))"

text \<open>
  \<open>parseTagAndLength\<close>: the identifier byte, the length, and what follows them.
  A tag number in the high form (the low five bits all set) never matches a type that
  is read here, so it is an error at once. A long-form length below 128 is not
  minimal; \<open>0x80\<close>, the indefinite length, is not DER.
\<close>

definition parseTagAndLength :: "bytes \<Rightarrow> (byte \<times> nat \<times> bytes) option" where
  "parseTagAndLength bs =
     (case bs of
        t # l # r \<Rightarrow>
          if t AND 0x1F = 0x1F then None
          else if l AND 0x80 = 0 then Some (t, unat l, r)
          else if l AND 0x7F = 0 then None
          else (case parse_long_length (unat (l AND 0x7F)) r 0 of
                  None \<Rightarrow> None
                | Some (n, r') \<Rightarrow> if n < 0x80 then None else Some (t, n, r'))
      | _ \<Rightarrow> None)"

text \<open>One element: its identifier byte, its content and the bytes after it.\<close>

definition parse_element :: "bytes \<Rightarrow> (byte \<times> bytes \<times> bytes) option" where
  "parse_element bs =
     (case parseTagAndLength bs of
        None \<Rightarrow> None
      | Some (t, n, r) \<Rightarrow> if n > length r then None else Some (t, take n r, drop n r))"

text \<open>\<open>checkInteger\<close>: not empty and minimally encoded.\<close>

definition checkInteger :: "bytes \<Rightarrow> bool" where
  "checkInteger bs =
     (case bs of
        [] \<Rightarrow> False
      | [b] \<Rightarrow> True
      | b0 # b1 # _ \<Rightarrow>
          \<not> ((b0 = 0 \<and> b1 AND 0x80 = 0) \<or> (b0 = 0xFF \<and> b1 AND 0x80 = 0x80)))"

definition parseBigInt :: "bytes \<Rightarrow> int option" where
  "parseBigInt bs =
     (if \<not> checkInteger bs then None
      else if hd bs AND 0x80 = 0x80 then Some (int (bytes_nat bs) - 2 ^ (8 * length bs))
      else Some (int (bytes_nat bs)))"

text \<open>\<open>parseInt64\<close>, for a field of the Go type \<open>int\<close>: at most eight bytes.\<close>

definition parseInt64 :: "bytes \<Rightarrow> int option" where
  "parseInt64 bs = (if length bs > 8 then None else parseBigInt bs)"

text \<open>
  \<open>parseField\<close> for a required field of type \<open>*big.Int\<close> or \<open>int\<close>: the next
  element must be a primitive universal INTEGER.
\<close>

definition parse_field_bigint :: "bytes \<Rightarrow> (int \<times> bytes) option" where
  "parse_field_bigint bs =
     do { (t, body, r) \<leftarrow> parse_element bs;
          (if t \<noteq> TagInteger then None else do { v \<leftarrow> parseBigInt body; Some (v, r) }) }"

definition parse_field_int :: "bytes \<Rightarrow> (int \<times> bytes) option" where
  "parse_field_int bs =
     do { (t, body, r) \<leftarrow> parse_element bs;
          (if t \<noteq> TagInteger then None else do { v \<leftarrow> parseInt64 body; Some (v, r) }) }"

text \<open>
  The same for a field tagged \<open>optional\<close>: at the end of the sequence, or before
  an element of another type, the field is left out and nothing is consumed.
\<close>

definition parse_optional_bigint :: "bytes \<Rightarrow> (int option \<times> bytes) option" where
  "parse_optional_bigint bs =
     (if bs = [] then Some (None, bs)
      else do { (t, body, r) \<leftarrow> parse_element bs;
                (if t \<noteq> TagInteger then Some (None, bs)
                 else do { v \<leftarrow> parseBigInt body; Some (Some v, r) }) })"

section \<open>crypto/rsa: validity of a private key\<close>

definition checkPub :: "PublicKey \<Rightarrow> lib_error option" where
  "checkPub pub =
     (if E pub < 2 then Some ''crypto/rsa: public exponent too small''
      else if E pub > 2 ^ 31 - 1 then Some ''crypto/rsa: public exponent too large''
      else None)"

text \<open>
  \<open>PrivateKey.Validate\<close>: the public exponent is in range, every prime is above
  1, the primes multiply to the modulus, and \<open>d * e\<close> is 1 modulo \<open>p - 1\<close> for
  each prime \<open>p\<close>. It does not test that the primes are prime.
\<close>

definition Validate :: "PrivateKey \<Rightarrow> lib_error option" where
  "Validate priv =
     (case checkPub (PublicKey priv) of
        Some e \<Rightarrow> Some e
      | None \<Rightarrow>
          if list_ex (\<lambda>prime. prime \<le> 1) (Primes priv)
            then Some ''crypto/rsa: invalid prime value''
          else if prod_list (Primes priv) \<noteq> N (PublicKey priv)
            then Some ''crypto/rsa: invalid modulus''
          else if list_ex (\<lambda>prime. (E (PublicKey priv) * D priv) mod (prime - 1) \<noteq> 1) (Primes priv)
            then Some ''crypto/rsa: invalid exponents''
          else None)"

text \<open>
  \<open>PrivateKey.Precompute\<close>, for the primes after the second: the exponent
  \<open>D mod (prime - 1)\<close> and the coefficient, the inverse modulo the prime of the
  product \<open>r\<close> of the primes before it.
\<close>

fun crt_values :: "int \<Rightarrow> int \<Rightarrow> int list \<Rightarrow> (int \<times> int \<times> int option) list" where
  "crt_values d r [] = []"
| "crt_values d r (prime # ps) =
     (prime, d mod \<bar>prime - 1\<bar>, ModInverse r prime) # crt_values d (r * prime) ps"

section \<open>crypto/x509: PKCS1 and PKIX\<close>

text \<open>One \<open>pkcs1AdditionalRSAPrime\<close>: a sequence of the prime, its exponent and its coefficient.\<close>

fun marshal_additional :: "(int \<times> int \<times> int option) \<Rightarrow> bytes option" where
  "marshal_additional (prime, ex, Some coeff) =
     Some (marshal_SEQUENCE (marshal_INTEGER prime @ marshal_INTEGER ex @ marshal_INTEGER coeff))"
| "marshal_additional (prime, ex, None) = None"

text \<open>
  \<open>MarshalPKCS1PrivateKey\<close>: after \<open>Precompute\<close>, the sequence of the version,
  \<open>N\<close>, \<open>E\<close>, \<open>D\<close>, the two primes, \<open>Dp\<close>, \<open>Dq\<close>, \<open>Qinv\<close> and, when
  there are more than two primes, the sequence of the additional ones (version 1).
  \<open>Inl\<close> is a run-time panic: fewer than two primes (index out of range), or a prime
  equal to 1 (division by zero in \<open>Precompute\<close>). When an inverse does not exist,
  the coefficient is nil, \<open>asn1.Marshal\<close> fails, the function drops that error and
  returns no bytes.
\<close>

definition MarshalPKCS1PrivateKey :: "PrivateKey \<Rightarrow> string + bytes" where
  "MarshalPKCS1PrivateKey key =
     (case Primes key of
        p # q # others \<Rightarrow>
          if list_ex (\<lambda>prime. prime = 1) (Primes key)
            then Inl ''runtime error: division by zero''
          else
            (let version = (if length (Primes key) > 2 then 1 else 0);
                 dp = D key mod \<bar>p - 1\<bar>;
                 dq = D key mod \<bar>q - 1\<bar>;
                 qinv = ModInverse q p;
                 additional = those (map marshal_additional (crt_values (D key) (p * q) others))
             in case (qinv, additional) of
                  (Some qi, Some adds) \<Rightarrow>
                    Inr (marshal_SEQUENCE
                          (marshal_INTEGER version @
                           marshal_INTEGER (N (PublicKey key)) @
                           marshal_INTEGER (E (PublicKey key)) @
                           marshal_INTEGER (D key) @
                           marshal_INTEGER p @
                           marshal_INTEGER q @
                           marshal_INTEGER dp @
                           marshal_INTEGER dq @
                           marshal_INTEGER qi @
                           (if adds = [] then [] else marshal_SEQUENCE (concat adds))))
                | _ \<Rightarrow> Inr [])
      | _ \<Rightarrow> Inl ''runtime error: index out of range'')"

text \<open>
  \<open>asn1.Unmarshal\<close> into a \<open>pkcs1PublicKey\<close>: a sequence that begins with the
  INTEGER \<open>N\<close> and the INTEGER \<open>E\<close> (more bytes may follow inside the sequence);
  the result carries the bytes after the sequence.
\<close>

definition unmarshal_pkcs1PublicKey :: "bytes \<Rightarrow> ((int \<times> int) \<times> bytes) option" where
  "unmarshal_pkcs1PublicKey der =
     do { (t, body, rest) \<leftarrow> parse_element der;
          (if t \<noteq> TagSequence then None
           else do { (n, b1) \<leftarrow> parse_field_bigint body;
                     (e, b2) \<leftarrow> parse_field_int b1;
                     Some ((n, e), rest) }) }"

text \<open>
  \<open>ParsePKCS1PublicKey\<close>. When the bytes are no \<open>pkcs1PublicKey\<close>, Go tries them
  as a \<open>SubjectPublicKeyInfo\<close> only to choose the text of the error; the model
  returns one text for both.
\<close>

definition ParsePKCS1PublicKey :: "bytes \<Rightarrow> lib_error + PublicKey" where
  "ParsePKCS1PublicKey der =
     (case unmarshal_pkcs1PublicKey der of
        None \<Rightarrow> Inl ''x509: failed to parse public key''
      | Some ((n, e), rest) \<Rightarrow>
          if length rest > 0 then Inl ''asn1: syntax error: trailing data''
          else if n \<le> 0 \<or> e \<le> 0 then Inl ''x509: public key contains zero or negative value''
          else if e > 2 ^ 31 - 1 then Inl ''x509: public key contains large public exponent''
          else Inr \<lparr>N = n, E = e\<rparr>)"

definition oidPublicKeyRSA :: bytes where
  "oidPublicKeyRSA = [0x2A, 0x86, 0x48, 0x86, 0xF7, 0x0D, 0x01, 0x01, 0x01]"

definition marshal_pkcs1PublicKey :: "PublicKey \<Rightarrow> bytes" where
  "marshal_pkcs1PublicKey pub = marshal_SEQUENCE (marshal_INTEGER (N pub) @ marshal_INTEGER (E pub))"

text \<open>
  \<open>MarshalPKIXPublicKey\<close> for an RSA key: the \<open>SubjectPublicKeyInfo\<close>, a
  sequence of the algorithm identifier (the OID \<open>rsaEncryption\<close> and NULL
  parameters) and of a bit string, without unused bits, that holds the
  \<open>pkcs1PublicKey\<close>.
\<close>

definition MarshalPKIXPublicKey :: "PublicKey \<Rightarrow> lib_error + bytes" where
  "MarshalPKIXPublicKey pub =
     (let publicKeyBytes = marshal_pkcs1PublicKey pub;
          publicKeyAlgorithm =
            marshal_SEQUENCE (asn1_element TagOID oidPublicKeyRSA @ asn1_element TagNull [])
      in Inr (marshal_SEQUENCE
                (publicKeyAlgorithm @ asn1_element TagBitString (0x00 # publicKeyBytes))))"

text \<open>
  \<open>asn1.Unmarshal\<close> into a \<open>pkcs1PrivateKey\<close>. The version and the exponent are
  Go \<open>int\<close>s; \<open>Dp\<close>, \<open>Dq\<close>, \<open>Qinv\<close> and the additional primes are
  optional. The fields carry the prefix \<open>pk\<close>.
\<close>

record pkcs1PrivateKey =
  pkVersion :: int
  pkN :: int
  pkE :: int
  pkD :: int
  pkP :: int
  pkQ :: int
  pkDp :: "int option"
  pkDq :: "int option"
  pkQinv :: "int option"
  pkAdditionalPrimes :: "(int \<times> int \<times> int) list"

definition parse_additional_prime :: "bytes \<Rightarrow> ((int \<times> int \<times> int) \<times> bytes) option" where
  "parse_additional_prime bs =
     do { (t, body, r) \<leftarrow> parse_element bs;
          (if t \<noteq> TagSequence then None
           else do { (prime, b1) \<leftarrow> parse_field_bigint body;
                     (ex, b2) \<leftarrow> parse_field_bigint b1;
                     (coeff, b3) \<leftarrow> parse_field_bigint b2;
                     Some ((prime, ex, coeff), r) }) }"

lemma parse_long_length_rest:
  "parse_long_length k bs acc = Some (n, r) \<Longrightarrow> length r \<le> length bs"
  by (induction k bs acc rule: parse_long_length.induct)
     (fastforce simp: Let_def split: if_splits)+

lemma parseTagAndLength_rest:
  "parseTagAndLength bs = Some (t, n, r) \<Longrightarrow> length r < length bs"
  by (auto simp: parseTagAndLength_def
           split: list.splits if_splits option.splits dest!: parse_long_length_rest)

lemma parse_element_rest:
  "parse_element bs = Some (t, body, r) \<Longrightarrow> length r < length bs"
  by (auto simp: parse_element_def split: option.splits if_splits
           dest!: parseTagAndLength_rest)

lemma parse_additional_prime_rest:
  "parse_additional_prime bs = Some (a, r) \<Longrightarrow> length r < length bs"
  by (auto simp: parse_additional_prime_def
           split: Option.bind_splits if_splits dest!: parse_element_rest)

text \<open>\<open>parseSequenceOf\<close>: the elements of a \<open>SEQUENCE OF\<close>, until its content ends.\<close>

function parseSequenceOf :: "bytes \<Rightarrow> (int \<times> int \<times> int) list option" where
  "parseSequenceOf bs =
     (if bs = [] then Some []
      else (case parse_additional_prime bs of
              None \<Rightarrow> None
            | Some (a, r) \<Rightarrow> map_option ((#) a) (parseSequenceOf r)))"
  by pat_completeness auto
termination
  by (relation "measure length") (auto dest: parse_additional_prime_rest)

declare parseSequenceOf.simps [simp del]

definition parse_optional_additional :: "bytes \<Rightarrow> (int \<times> int \<times> int) list option" where
  "parse_optional_additional bs =
     (if bs = [] then Some []
      else do { (t, body, r) \<leftarrow> parse_element bs;
                (if t \<noteq> TagSequence then Some [] else parseSequenceOf body) })"

definition unmarshal_pkcs1PrivateKey :: "bytes \<Rightarrow> (pkcs1PrivateKey \<times> bytes) option" where
  "unmarshal_pkcs1PrivateKey der =
     do { (t, body, rest) \<leftarrow> parse_element der;
          (if t \<noteq> TagSequence then None
           else do { (v, b0) \<leftarrow> parse_field_int body;
                     (n, b1) \<leftarrow> parse_field_bigint b0;
                     (e, b2) \<leftarrow> parse_field_int b1;
                     (d, b3) \<leftarrow> parse_field_bigint b2;
                     (p, b4) \<leftarrow> parse_field_bigint b3;
                     (q, b5) \<leftarrow> parse_field_bigint b4;
                     (dp, b6) \<leftarrow> parse_optional_bigint b5;
                     (dq, b7) \<leftarrow> parse_optional_bigint b6;
                     (qinv, b8) \<leftarrow> parse_optional_bigint b7;
                     adds \<leftarrow> parse_optional_additional b8;
                     Some (\<lparr>pkVersion = v, pkN = n, pkE = e, pkD = d, pkP = p, pkQ = q,
                            pkDp = dp, pkDq = dq, pkQinv = qinv, pkAdditionalPrimes = adds\<rparr>,
                           rest) }) }"

text \<open>
  \<open>ParsePKCS1PrivateKey\<close>: the key is built from \<open>N\<close>, \<open>E\<close>, \<open>D\<close> and the
  primes (the other values are computed again when needed), and must pass
  \<open>Validate\<close>. As for the public key, one text stands for the errors of
  \<open>asn1.Unmarshal\<close>.
\<close>

definition ParsePKCS1PrivateKey :: "bytes \<Rightarrow> lib_error + PrivateKey" where
  "ParsePKCS1PrivateKey der =
     (case unmarshal_pkcs1PrivateKey der of
        None \<Rightarrow> Inl ''x509: failed to parse private key''
      | Some (priv, rest) \<Rightarrow>
          if length rest > 0 then Inl ''asn1: syntax error: trailing data''
          else if pkVersion priv > 1 then Inl ''x509: unsupported private key version''
          else if pkN priv \<le> 0 \<or> pkD priv \<le> 0 \<or> pkP priv \<le> 0 \<or> pkQ priv \<le> 0
            then Inl ''x509: private key contains zero or negative value''
          else if list_ex (\<lambda>a. fst a \<le> 0) (pkAdditionalPrimes priv)
            then Inl ''x509: private key contains zero or negative prime''
          else
            (let key = \<lparr>PublicKey = \<lparr>N = pkN priv, E = pkE priv\<rparr>, D = pkD priv,
                        Primes = pkP priv # pkQ priv # map fst (pkAdditionalPrimes priv)\<rparr>
             in case Validate key of Some e \<Rightarrow> Inl e | None \<Rightarrow> Inr key))"

section \<open>bytes: searching and cutting\<close>

definition HasPrefix :: "bytes \<Rightarrow> bytes \<Rightarrow> bool" where
  "HasPrefix s pre = (take (length pre) s = pre)"

definition HasSuffix :: "bytes \<Rightarrow> bytes \<Rightarrow> bool" where
  "HasSuffix s suf = (length suf \<le> length s \<and> drop (length s - length suf) s = suf)"

text \<open>\<open>bytes.Index\<close>: where \<open>sep\<close> first occurs in \<open>s\<close>; \<open>None\<close> is Go's \<open>-1\<close>.\<close>

fun Index :: "bytes \<Rightarrow> bytes \<Rightarrow> nat option" where
  "Index [] sep = (if sep = [] then Some 0 else None)"
| "Index (c # s) sep =
     (if HasPrefix (c # s) sep then Some 0 else map_option Suc (Index s sep))"

text \<open>\<open>bytes.Cut\<close>: what stands before and after the first \<open>sep\<close>.\<close>

definition Cut :: "bytes \<Rightarrow> bytes \<Rightarrow> (bytes \<times> bytes) option" where
  "Cut s sep =
     (case Index s sep of None \<Rightarrow> None | Some i \<Rightarrow> Some (take i s, drop (i + length sep) s))"

definition is_sp_tab :: "byte \<Rightarrow> bool" where
  "is_sp_tab b \<longleftrightarrow> b = 0x20 \<or> b = 0x09"

definition TrimRight_sp_tab :: "bytes \<Rightarrow> bytes" where
  "TrimRight_sp_tab data = rev (dropWhile is_sp_tab (rev data))"

text \<open>\<open>bytes.TrimSpace\<close>, for the white space of ASCII.\<close>

definition is_space :: "byte \<Rightarrow> bool" where
  "is_space b \<longleftrightarrow> b = 0x20 \<or> (0x09 \<le> b \<and> b \<le> 0x0D)"

definition TrimSpace :: "bytes \<Rightarrow> bytes" where
  "TrimSpace data = rev (dropWhile is_space (rev (dropWhile is_space data)))"

section \<open>encoding/pem\<close>

record Block =
  Type :: string
  Headers :: "(bytes \<times> bytes) list"
  Bytes :: bytes

definition pemStart :: bytes where
  "pemStart = 0x0A # bytes_of_string ''-----BEGIN ''"

definition pemEnd :: bytes where
  "pemEnd = 0x0A # bytes_of_string ''-----END ''"

definition pemEndOfLine :: bytes where
  "pemEndOfLine = bytes_of_string ''-----''"

definition colon :: bytes where
  "colon = [0x3A]"

definition pemLineLength :: nat where
  "pemLineLength = 64"

text \<open>
  \<open>getLine\<close>: the first line without its line break (\<open>\n\<close> or \<open>\r\n\<close>) and
  without spaces and tabs at its end, and what follows the line.
\<close>

definition getLine :: "bytes \<Rightarrow> bytes \<times> bytes" where
  "getLine data =
     (case Index data [0x0A] of
        None \<Rightarrow> (TrimRight_sp_tab data, [])
      | Some i \<Rightarrow>
          (let i' = (if i > 0 \<and> data ! (i - 1) = 0x0D then i - 1 else i)
           in (TrimRight_sp_tab (take i' data), drop (i + 1) data)))"

definition removeSpacesAndTabs :: "bytes \<Rightarrow> bytes" where
  "removeSpacesAndTabs data = filter (\<lambda>b. \<not> is_sp_tab b) data"

lemma getLine_rest: "length (snd (getLine data)) \<le> length data"
  by (simp add: getLine_def Let_def split: option.split)

lemma getLine_rest_less: "data \<noteq> [] \<Longrightarrow> length (snd (getLine data)) < length data"
  by (cases data) (auto simp: getLine_def Let_def split: option.split)

text \<open>
  The header loop of \<open>Decode\<close>: lines with a colon are headers. It stops before the
  first line without one; when the input ends first, \<open>Decode\<close> gives up (\<open>None\<close>).
\<close>

function parse_headers :: "bytes \<Rightarrow> ((bytes \<times> bytes) list \<times> bytes) option" where
  "parse_headers rest =
     (if rest = [] then None
      else (case Cut (fst (getLine rest)) colon of
              None \<Rightarrow> Some ([], rest)
            | Some (key, val) \<Rightarrow>
                map_option (\<lambda>(hs, r). ((TrimSpace key, TrimSpace val) # hs, r))
                  (parse_headers (snd (getLine rest)))))"
  by pat_completeness auto
termination
  by (relation "measure length") (auto simp: getLine_rest_less)

declare parse_headers.simps [simp del]

lemma parse_headers_rest:
  "parse_headers rest = Some (hs, r) \<Longrightarrow> length r \<le> length rest"
proof (induction rest arbitrary: hs r rule: parse_headers.induct)
  case (1 rest)
  show ?case
  proof (cases "Cut (fst (getLine rest)) colon")
    case None
    with "1.prems" show ?thesis
      by (simp add: parse_headers.simps [of rest] split: if_splits)
  next
    case (Some kv)
    obtain key val where kv: "kv = (key, val)" by (cases kv)
    from "1.prems" Some kv obtain hs' where
      ne: "rest \<noteq> []" and rec: "parse_headers (snd (getLine rest)) = Some (hs', r)"
      by (auto simp: parse_headers.simps [of rest] split: if_splits)
    from "1.IH" [OF ne Some [unfolded kv] refl rec] getLine_rest [of rest]
    show ?thesis by simp
  qed
qed

text \<open>Where the search for the next block begins: after the next \<open>BEGIN\<close> marker.\<close>

definition after_pemStart :: "bytes \<Rightarrow> bytes option" where
  "after_pemStart rest =
     (if HasPrefix rest (tl pemStart) then Some (drop (length pemStart - 1) rest)
      else map_option snd (Cut rest pemStart))"

lemma after_pemStart_less:
  "after_pemStart rest = Some rest1 \<Longrightarrow> length rest1 < length rest"
  by (cases rest)
     (auto simp: after_pemStart_def HasPrefix_def Cut_def pemStart_def bytes_of_string_def
           split: if_splits option.splits)

text \<open>
  One pass of the loop of \<open>Decode\<close>, from behind a \<open>BEGIN\<close> marker: a block
  is found, or the search goes on from where this pass stopped reading
  (\<open>continue\<close>), or \<open>Decode\<close> gives up (\<open>return nil, data\<close>).
\<close>

datatype attempt = Found Block bytes | Continue bytes | GiveUp

definition pem_attempt :: "bytes \<Rightarrow> attempt" where
  "pem_attempt rest1 =
     (case getLine rest1 of (typeLine0, rest2) \<Rightarrow>
        if \<not> HasSuffix typeLine0 pemEndOfLine then Continue rest2
        else
          (let typeLine = take (length typeLine0 - length pemEndOfLine) typeLine0
           in case parse_headers rest2 of
                None \<Rightarrow> GiveUp
              | Some (headers, rest) \<Rightarrow>
                  (case (if headers = [] \<and> HasPrefix rest (tl pemEnd)
                         then Some (0, length pemEnd - 1)
                         else map_option (\<lambda>i. (i, i + length pemEnd)) (Index rest pemEnd)) of
                     None \<Rightarrow> Continue rest
                   | Some (endIndex, endTrailerIndex) \<Rightarrow>
                       (let endTrailer = drop endTrailerIndex rest;
                            endTrailerLen = length typeLine + length pemEndOfLine
                        in if length endTrailer < endTrailerLen then Continue rest
                           else
                             (let restOfEndLine = drop endTrailerLen endTrailer;
                                  endTrailer' = take endTrailerLen endTrailer
                              in if \<not> HasPrefix endTrailer' typeLine \<or>
                                    \<not> HasSuffix endTrailer' pemEndOfLine then Continue rest
                                 else if fst (getLine restOfEndLine) \<noteq> [] then Continue rest
                                 else
                                   (case base64_Decode (removeSpacesAndTabs (take endIndex rest)) of
                                      Inl err \<Rightarrow> Continue rest
                                    | Inr b \<Rightarrow>
                                        Found \<lparr>Type = string_of_bytes typeLine,
                                               Headers = headers, Bytes = b\<rparr>
                                          (snd (getLine
                                            (drop (endIndex + length pemEnd - 1) rest)))))))))"

lemma pem_attempt_Continue:
  "pem_attempt rest1 = Continue r \<Longrightarrow> length r \<le> length rest1"
proof -
  assume a: "pem_attempt rest1 = Continue r"
  obtain typeLine0 rest2 where gl: "getLine rest1 = (typeLine0, rest2)"
    by (cases "getLine rest1")
  have l2: "length rest2 \<le> length rest1"
    using getLine_rest [of rest1] gl by simp
  show ?thesis
  proof (cases "parse_headers rest2")
    case None
    with a gl l2 show ?thesis
      by (simp add: pem_attempt_def split: if_splits)
  next
    case (Some hr)
    obtain hs rest where hr: "hr = (hs, rest)" by (cases hr)
    have l3: "length rest \<le> length rest2"
      using parse_headers_rest Some hr by simp
    from a gl Some hr have "r = rest2 \<or> r = rest"
      by (simp add: pem_attempt_def Let_def
               split: if_splits option.splits prod.splits sum.splits)
    with l2 l3 show ?thesis by auto
  qed
qed

text \<open>
  \<open>Decode\<close>: the first block of \<open>data\<close> that is well formed, with what follows
  it; without one, nil and \<open>data\<close>.
\<close>

function decode_from :: "bytes \<Rightarrow> (Block \<times> bytes) option" where
  "decode_from rest =
     (case after_pemStart rest of
        None \<Rightarrow> None
      | Some rest1 \<Rightarrow>
          (case pem_attempt rest1 of
             Found p r \<Rightarrow> Some (p, r)
           | GiveUp \<Rightarrow> None
           | Continue rest' \<Rightarrow> decode_from rest'))"
  by pat_completeness auto
termination
proof (relation "measure length")
  show "wf (measure length)" by simp
next
  fix rest rest1 rest'
  assume "after_pemStart rest = Some rest1" "pem_attempt rest1 = Continue rest'"
  then show "(rest', rest) \<in> measure length"
    using after_pemStart_less [of rest rest1] pem_attempt_Continue [of rest1 rest'] by simp
qed

declare decode_from.simps [simp del]

definition pem_Decode :: "bytes \<Rightarrow> Block option \<times> bytes" where
  "pem_Decode data =
     (case decode_from data of None \<Rightarrow> (None, data) | Some (p, r) \<Rightarrow> (Some p, r))"

text \<open>The \<open>lineBreaker\<close> of \<open>Encode\<close>: lines of 64 characters, each closed by \<open>\n\<close>.\<close>

function breakLines :: "bytes \<Rightarrow> bytes" where
  "breakLines s =
     (if s = [] then []
      else take pemLineLength s @ [0x0A] @ breakLines (drop pemLineLength s))"
  by pat_completeness auto
termination
  by (relation "measure length") (auto simp: pemLineLength_def)

declare breakLines.simps [simp del]

text \<open>
  All that \<open>Encode\<close> writes for a block: the \<open>BEGIN\<close> line, the headers and an
  empty line when there are headers (they are written in the order of the list; Go
  sorts them), the base64 body in lines, the \<open>END\<close> line.
\<close>

definition header_lines :: "(bytes \<times> bytes) list \<Rightarrow> bytes" where
  "header_lines hs =
     (if hs = [] then []
      else concat (map (\<lambda>(k, v). k @ [0x3A, 0x20] @ v @ [0x0A]) hs) @ [0x0A])"

definition EncodeToMemory :: "Block \<Rightarrow> bytes" where
  "EncodeToMemory b =
     tl pemStart @ bytes_of_string (Type b) @ pemEndOfLine @ [0x0A] @
     header_lines (Headers b) @
     breakLines (base64_Encode (Bytes b)) @
     tl pemEnd @ bytes_of_string (Type b) @ pemEndOfLine @ [0x0A]"

section \<open>os: files and file handles\<close>

text \<open>
  What the package sees of the file system: the regular files by path, the open file
  handles (a descriptor and the path it was opened on), the next free descriptor,
  the paths at which the system refuses to create a file (no permission, no such
  directory, name too long), and the free space in bytes. One thread of control; no
  other process changes the state between two calls.
\<close>

record os_state =
  files :: "string \<rightharpoonup> bytes"
  open_files :: "(nat \<times> string) list"
  next_fd :: nat
  no_create :: "string set"
  free_space :: nat

text \<open>\<open>os.Stat\<close>: the package looks only at the error, nil when the file exists.\<close>

definition os_Stat :: "os_state \<Rightarrow> string \<Rightarrow> lib_error option" where
  "os_Stat s name =
     (case files s name of
        None \<Rightarrow> Some (''stat '' @ name @ '': no such file or directory'')
      | Some c \<Rightarrow> None)"

text \<open>
  \<open>os.Create\<close>: the file is created, or truncated when it exists, and opened; the
  result is the new handle.
\<close>

definition os_Create :: "os_state \<Rightarrow> string \<Rightarrow> os_state \<times> (lib_error + nat)" where
  "os_Create s name =
     (if name \<in> no_create s then (s, Inl (''open '' @ name @ '': permission denied''))
      else (s\<lparr>files := (files s)(name \<mapsto> []),
               open_files := (next_fd s, name) # open_files s,
               next_fd := next_fd s + 1\<rparr>,
            Inr (next_fd s)))"

definition is_open :: "os_state \<Rightarrow> nat \<Rightarrow> bool" where
  "is_open s fd = (map_of (open_files s) fd \<noteq> None)"

definition file_Close :: "os_state \<Rightarrow> nat \<Rightarrow> os_state \<times> lib_error option" where
  "file_Close s fd =
     (if is_open s fd
      then (s\<lparr>open_files := filter (\<lambda>e. fst e \<noteq> fd) (open_files s)\<rparr>, None)
      else (s, Some ''close: file already closed''))"

text \<open>
  \<open>File.Write\<close> on a handle that \<open>os.Create\<close> gave and that was never moved: the
  bytes go to the end of the file. When the space runs out, the bytes that fit are
  written and the call fails.
\<close>

definition file_Write :: "os_state \<Rightarrow> nat \<Rightarrow> bytes \<Rightarrow> os_state \<times> lib_error option" where
  "file_Write s fd b =
     (case map_of (open_files s) fd of
        None \<Rightarrow> (s, Some ''write: file already closed'')
      | Some name \<Rightarrow>
          (let n = min (length b) (free_space s);
               old = (case files s name of None \<Rightarrow> [] | Some c \<Rightarrow> c);
               s' = s\<lparr>files := (files s)(name \<mapsto> old @ take n b),
                       free_space := free_space s - n\<rparr>
           in if n < length b then (s', Some (''write '' @ name @ '': no space left on device''))
              else (s', None)))"

definition os_ReadFile :: "os_state \<Rightarrow> string \<Rightarrow> lib_error + bytes" where
  "os_ReadFile s name =
     (case files s name of
        None \<Rightarrow> Inl (''open '' @ name @ '': no such file or directory'')
      | Some c \<Rightarrow> Inr c)"

text \<open>
  \<open>pem.Encode\<close> to a file. It checks the header keys first and then writes the
  parts of the block one after the other, stopping at the first write that fails;
  with the writes above that leaves in the file what one write of all the bytes
  leaves, and fails when that one write fails.
\<close>

definition pem_Encode :: "os_state \<Rightarrow> nat \<Rightarrow> Block \<Rightarrow> os_state \<times> lib_error option" where
  "pem_Encode s out b =
     (if list_ex (\<lambda>kv. 0x3A \<in> set (fst kv)) (Headers b)
      then (s, Some ''pem: cannot encode a header key that contains a colon'')
      else file_Write s out (EncodeToMemory b))"

section \<open>Key loading\<close>

text \<open>A \<open>(*rsa.PrivateKey, error)\<close> is a pair of a key that may be nil and an error that may be nil.\<close>

definition ParsePrivateKey :: "bytes \<Rightarrow> PrivateKey option \<times> error option" where
  "ParsePrivateKey der =
     (case fst (pem_Decode der) of
        None \<Rightarrow>
          (None, Some (New (CurrentFunctionName ''ParsePrivateKey'' @
                            '':failed to decode PEM block containing private key'')))
      | Some block \<Rightarrow>
          if Type block \<noteq> ''RSA PRIVATE KEY'' then
            (None, Some (New (CurrentFunctionName ''ParsePrivateKey'' @
                              '':failed to decode PEM block containing private key'')))
          else
            (case ParsePKCS1PrivateKey (Bytes block) of
               Inl err \<Rightarrow>
                 (None, Some (New (CurrentFunctionName ''ParsePrivateKey'' @
                                   '':failed to parse PEM block:'' @ err)))
             | Inr pub \<Rightarrow> (Some pub, None)))"

definition LoadPrivateKey :: "os_state \<Rightarrow> string \<Rightarrow> PrivateKey option \<times> error option" where
  "LoadPrivateKey s filename =
     (case os_ReadFile s filename of
        Inl err \<Rightarrow> (None, Some (New (CurrentFunctionName ''LoadPrivateKey'' @ '':reading file:'' @ err)))
      | Inr buf \<Rightarrow> ParsePrivateKey buf)"

definition ParsePublicKey :: "bytes \<Rightarrow> PublicKey option \<times> error option" where
  "ParsePublicKey der =
     (case fst (pem_Decode der) of
        None \<Rightarrow>
          (None, Some (New (CurrentFunctionName ''ParsePublicKey'' @
                            '':failed to decode PEM block containing public key'')))
      | Some block \<Rightarrow>
          if Type block \<noteq> ''PUBLIC KEY'' then
            (None, Some (New (CurrentFunctionName ''ParsePublicKey'' @
                              '':failed to decode PEM block containing public key'')))
          else
            (case ParsePKCS1PublicKey (Bytes block) of
               Inl err \<Rightarrow>
                 (None, Some (New (CurrentFunctionName ''ParsePublicKey'' @
                                   '':failed to parse PEM block:'' @ err)))
             | Inr pub \<Rightarrow> (Some pub, None)))"

definition LoadPublicKey :: "os_state \<Rightarrow> string \<Rightarrow> PublicKey option \<times> error option" where
  "LoadPublicKey s filename =
     (case os_ReadFile s filename of
        Inl err \<Rightarrow> (None, Some (New (CurrentFunctionName ''LoadPublicKey'' @ '':reading file:'' @ err)))
      | Inr buf \<Rightarrow> ParsePublicKey buf)"

section \<open>Key writing and key pair files\<close>

text \<open>
  \<open>WritePrivateKey\<close> and \<open>WritePublicKey\<close> write to an open file: the state of
  the file system goes in and comes out. A panic of \<open>MarshalPKCS1PrivateKey\<close>
  leaves the function at once.
\<close>

definition WritePrivateKey :: "os_state \<Rightarrow> nat \<Rightarrow> PrivateKey \<Rightarrow> os_state \<times> error option" where
  "WritePrivateKey s file privKey =
     (case MarshalPKCS1PrivateKey privKey of
        Inl p \<Rightarrow> (s, Some (Panic p))
      | Inr der \<Rightarrow>
          (let privateKey = \<lparr>Type = ''RSA PRIVATE KEY'', Headers = [], Bytes = der\<rparr>
           in case pem_Encode s file privateKey of
                (s', Some err) \<Rightarrow>
                  (s', Some (New (CurrentFunctionName ''WritePrivateKey'' @ '':'' @ err)))
              | (s', None) \<Rightarrow> (s', None)))"

definition WritePublicKey :: "os_state \<Rightarrow> nat \<Rightarrow> PublicKey \<Rightarrow> os_state \<times> error option" where
  "WritePublicKey s file pubKey =
     (case MarshalPKIXPublicKey pubKey of
        Inl err \<Rightarrow> (s, Some (New (CurrentFunctionName ''WritePublicKey'' @ '':1:'' @ err)))
      | Inr asn1Bytes \<Rightarrow>
          (let pemkey = \<lparr>Type = ''PUBLIC KEY'', Headers = [], Bytes = asn1Bytes\<rparr>
           in case pem_Encode s file pemkey of
                (s', Some err) \<Rightarrow>
                  (s', Some (New (CurrentFunctionName ''WritePublicKey'' @ '':2:'' @ err)))
              | (s', None) \<Rightarrow> (s', None)))"

definition createRSAKeyPair2 ::
  "'r rsa_lib \<Rightarrow> 'r \<Rightarrow> os_state \<Rightarrow> nat \<Rightarrow> nat \<Rightarrow> os_state \<times> error option" where
  "createRSAKeyPair2 lib rand_Reader s privKeyFile pubKeyFile =
     (case GenerateKey lib rand_Reader bitSize of
        Inl err \<Rightarrow>
          (s, Some (New (CurrentFunctionName ''createRSAKeyPair2'' @ ''key creation:'' @ err)))
      | Inr privateKey \<Rightarrow>
          (case WritePrivateKey s privKeyFile privateKey of
             (s1, Some (Panic p)) \<Rightarrow> (s1, Some (Panic p))
           | (s1, Some err) \<Rightarrow>
               (s1, Some (New (CurrentFunctionName ''createRSAKeyPair2'' @
                               ''private key writing:'' @ Error err)))
           | (s1, None) \<Rightarrow>
               (case WritePublicKey s1 pubKeyFile (PublicKey privateKey) of
                  (s2, Some err) \<Rightarrow>
                    (s2, Some (New (CurrentFunctionName ''createRSAKeyPair2'' @
                                    ''public key writing:'' @ Error err)))
                | (s2, None) \<Rightarrow> (s2, None))))"

definition publicKeyFileSuffix :: string where
  "publicKeyFileSuffix = ''.pub''"

text \<open>
  \<open>CreateRSAKeyPair2File\<close>. The two \<open>defer\<close> statements stand after both calls of
  \<open>os.Create\<close>: the deferred \<open>Close\<close> calls run, the later one first, only when
  the function leaves after them, and what they return is dropped.
\<close>

definition CreateRSAKeyPair2File ::
  "'r rsa_lib \<Rightarrow> 'r \<Rightarrow> os_state \<Rightarrow> string \<Rightarrow> os_state \<times> error option" where
  "CreateRSAKeyPair2File lib rand_Reader s outfileName =
     (if os_Stat s outfileName = None then
        (s, Some (New (''Private key file '' @ outfileName @ '' already exists.'')))
      else if os_Stat s (outfileName @ publicKeyFileSuffix) = None then
        (s, Some (New (''Public key file '' @ outfileName @ '' already exists.'')))
      else
        (case os_Create s outfileName of
           (s1, Inl err) \<Rightarrow>
             (s1, Some (New (''Error creating private key file '' @ outfileName @ '':'' @ err)))
         | (s1, Inr privKeyFile) \<Rightarrow>
             (case os_Create s1 (outfileName @ publicKeyFileSuffix) of
                (s2, Inl err) \<Rightarrow>
                  (s2, Some (New (''Error creating private key file '' @ outfileName @ '':'' @ err)))
              | (s2, Inr pubKeyFile) \<Rightarrow>
                  (case createRSAKeyPair2 lib rand_Reader s2 privKeyFile pubKeyFile of
                     (s3, r) \<Rightarrow>
                       (case file_Close s3 pubKeyFile of
                          (s4, e1) \<Rightarrow>
                            (case file_Close s4 privKeyFile of
                               (s5, e2) \<Rightarrow> (s5, r)))))))"

text \<open>The descriptors of the handles that are open in a state.\<close>

definition open_handles :: "os_state \<Rightarrow> nat list" where
  "open_handles s = map fst (open_files s)"

section \<open>What the package expects of crypto/rsa\<close>

text \<open>
  The contract of \<open>crypto/rsa\<close> for the keys that \<open>GenerateKey\<close> returns at
  \<open>bitSize\<close> bits: with SHA-256, a digest of its size and the automatic salt length,
  \<open>SignPSS\<close> returns a signature whatever the random source delivers, and
  \<open>VerifyPSS\<close> accepts, for the public part of the key and the same digest, every
  signature that \<open>SignPSS\<close> returns.
\<close>

definition pss_contract :: "'r rsa_lib \<Rightarrow> bool" where
  "pss_contract lib \<longleftrightarrow>
     (\<forall>r k r' d. GenerateKey lib r bitSize = Inr k \<longrightarrow> length d = Size \<longrightarrow>
        (\<exists>sg. SignPSS lib r' k SHA256 d opts_auto = Inr sg) \<and>
        (\<forall>sg. SignPSS lib r' k SHA256 d opts_auto = Inr sg \<longrightarrow>
              VerifyPSS lib (PublicKey k) SHA256 d sg opts_auto = None))"

text \<open>
  A small instance of the three functions, to run the package on: one fixed key
  (\<open>N = 3 * 5\<close>, \<open>E = 3\<close>, \<open>D = 3\<close>), and a signature that is the digest,
  reduced modulo \<open>N\<close>, to the power \<open>D\<close>. The random source is not read.
\<close>

definition tiny_key :: PrivateKey where
  "tiny_key = \<lparr>PublicKey = \<lparr>N = 15, E = 3\<rparr>, D = 3, Primes = [3, 5]\<rparr>"

definition tiny_rsa :: "unit rsa_lib" where
  "tiny_rsa =
     \<lparr>GenerateKey = (\<lambda>r bits. Inr tiny_key),
      SignPSS = (\<lambda>r k hash d opts.
         Inr [of_nat ((bytes_nat d mod nat (N (PublicKey k))) ^ nat (D k) mod nat (N (PublicKey k)))]),
      VerifyPSS = (\<lambda>pub hash d sg opts.
         if bytes_nat sg ^ nat (E pub) mod nat (N pub) = bytes_nat d mod nat (N pub)
         then None else Some ''crypto/rsa: verification error'')\<rparr>"

section \<open>Valid keys\<close>

fun pairwise_coprime :: "int list \<Rightarrow> bool" where
  "pairwise_coprime [] = True"
| "pairwise_coprime (p # ps) = (list_all (\<lambda>q. gcd p q = 1) ps \<and> pairwise_coprime ps)"

text \<open>
  A valid private key: \<open>Validate\<close> accepts it, the private exponent is positive,
  it has two primes or more, and no two of them share a factor (as distinct primes do
  not).
\<close>

definition valid_private_key :: "PrivateKey \<Rightarrow> bool" where
  "valid_private_key k \<longleftrightarrow>
     Validate k = None \<and> 0 < D k \<and> 2 \<le> length (Primes k) \<and> pairwise_coprime (Primes k)"

text \<open>The bytes that \<open>WritePrivateKey\<close> and \<open>WritePublicKey\<close> hand to \<open>pem.Encode\<close>.\<close>

definition private_key_block :: "bytes \<Rightarrow> Block" where
  "private_key_block der = \<lparr>Type = ''RSA PRIVATE KEY'', Headers = [], Bytes = der\<rparr>"

definition public_key_block :: "bytes \<Rightarrow> Block" where
  "public_key_block der = \<lparr>Type = ''PUBLIC KEY'', Headers = [], Bytes = der\<rparr>"

text \<open>The additional primes as \<open>Precompute\<close> and the parser see them.\<close>

fun crt_triples :: "int \<Rightarrow> int \<Rightarrow> int list \<Rightarrow> (int \<times> int \<times> int) list" where
  "crt_triples d r [] = []"
| "crt_triples d r (p # ps) =
     (p, d mod \<bar>p - 1\<bar>, (case ModInverse r p of Some c \<Rightarrow> c | None \<Rightarrow> 0)) # crt_triples d (r * p) ps"

fun marshal_triple :: "int \<times> int \<times> int \<Rightarrow> bytes" where
  "marshal_triple (p, e, c) =
     marshal_SEQUENCE (marshal_INTEGER p @ marshal_INTEGER e @ marshal_INTEGER c)"

text \<open>The characters of a base64 body.\<close>

definition b64chars :: "byte set" where
  "b64chars = insert padChar (set encodeStd)"

section \<open>DER: what is marshalled parses back\<close>

lemma bytes_nat_append: "bytes_nat (bs @ [b]) = bytes_nat bs * 256 + unat b"
  by (simp add: bytes_nat_def)

lemma bytes_nat_Nil: "bytes_nat [] = 0"
  by (simp add: bytes_nat_def)

lemma unat_of_nat_mod256: "unat (of_nat (n mod 256) :: byte) = n mod 256"
  by (simp add: unat_of_nat)

lemma bytes_nat_nat_bytes: "bytes_nat (nat_bytes n) = n"
proof (induction n rule: nat_bytes.induct)
  case (1 n)
  show ?case
  proof (cases "n = 0")
    case True
    then show ?thesis by (simp add: nat_bytes.simps [of 0] bytes_nat_Nil)
  next
    case False
    with 1 show ?thesis
      by (simp add: nat_bytes.simps [of n] bytes_nat_append unat_of_nat_mod256)
  qed
qed

lemma nat_bytes_0: "nat_bytes 0 = []"
  by (simp add: nat_bytes.simps [of 0])

lemma nat_bytes_pos: "0 < n \<Longrightarrow> nat_bytes n = nat_bytes (n div 256) @ [of_nat (n mod 256)]"
  by (simp add: nat_bytes.simps [of n])

lemma nat_bytes_ne: "0 < n \<Longrightarrow> nat_bytes n \<noteq> []"
  by (simp add: nat_bytes_pos)

lemma hd_nat_bytes: "0 < n \<Longrightarrow> hd (nat_bytes n) \<noteq> 0"
proof (induction n rule: nat_bytes.induct)
  case (1 n)
  show ?case
  proof (cases "n div 256 = 0")
    case True
    with "1.prems" have "n mod 256 = n" "n < 256" by auto
    with "1.prems" True show ?thesis
      by (auto simp: nat_bytes_pos [of n] nat_bytes_0 word_of_nat_eq_0_iff dest: nat_dvd_not_less)
  next
    case False
    with 1 have "hd (nat_bytes (n div 256)) \<noteq> 0" by simp
    with False "1.prems" show ?thesis
      by (simp add: nat_bytes_pos [of n] nat_bytes_ne)
  qed
qed

lemma length_nat_bytes: "n < 256 ^ k \<Longrightarrow> length (nat_bytes n) \<le> k"
proof (induction n arbitrary: k rule: nat_bytes.induct)
  case (1 n)
  show ?case
  proof (cases "n = 0")
    case True
    then show ?thesis by (simp add: nat_bytes_0)
  next
    case False
    then obtain k' where k: "k = Suc k'" using "1.prems" by (cases k) auto
    with "1.prems" have "n div 256 < 256 ^ k'"
      by (simp add: less_mult_imp_div_less)
    with 1 False have "length (nat_bytes (n div 256)) \<le> k'" by simp
    with False k show ?thesis by (simp add: nat_bytes_pos)
  qed
qed


lemma bit7_iff: "bit (w::byte) 7 \<longleftrightarrow> 128 \<le> unat w"
proof -
  have "bit w 7 \<longleftrightarrow> bit (unat w) 7"
    by (simp add: bit_unsigned_iff)
  also have "\<dots> \<longleftrightarrow> odd (unat w div 2 ^ 7)"
    by (simp only: bit_iff_odd)
  also have "\<dots> \<longleftrightarrow> 128 \<le> unat w"
  proof -
    have "unat w < 256" using unsigned_less [of w] by simp
    then have "unat w div 128 = 0 \<or> unat w div 128 = 1" by arith
    then show ?thesis by auto
  qed
  finally show ?thesis .
qed

lemma and_0x80_eq_0: "(w::byte) AND 0x80 = 0 \<longleftrightarrow> unat w < 128"
proof -
  have "(0x80::byte) = 2 ^ 7" by simp
  then have "w AND 0x80 = 0 \<longleftrightarrow> \<not> bit w 7"
    by (simp only: and_exp_eq_0_iff_not_bit)
  then show ?thesis by (simp add: bit7_iff not_le)
qed

lemma and_0x80_cases: "(w::byte) AND 0x80 = (if unat w < 128 then 0 else 0x80)"
proof (rule bit_word_eqI)
  fix n assume "n < LENGTH(8)"
  have b: "bit (0x80::byte) n \<longleftrightarrow> n = 7"
    using bit_exp_iff [where ?'a = byte, of 7 n] by auto
  show "bit (w AND 0x80) n = bit (if unat w < 128 then 0 else (0x80::byte)) n"
    using b by (auto simp: bit_and_iff bit7_iff)
qed

lemma and_0x7F: "unat ((w::byte) AND 0x7F) = unat w mod 128"
proof -
  have "(0x7F::byte) = mask 7" by (simp add: mask_eq_exp_minus_1)
  then have "w AND 0x7F = take_bit 7 w" by (simp add: take_bit_eq_mask)
  then show ?thesis by (simp add: take_bit_eq_mod unat_mod)
qed

lemma unat_0x80_or: "k < 128 \<Longrightarrow> unat ((0x80::byte) OR of_nat k) = 128 + k"
proof -
  assume k: "k < 128"
  have "(0x80::byte) OR of_nat k = 0x80 + of_nat k"
  proof (rule disjunctive_add [symmetric])
    fix n
    have b: "bit (0x80::byte) n \<longleftrightarrow> n = 7"
      using bit_exp_iff [where ?'a = byte, of 7 n] by auto
    have "\<not> bit (of_nat k :: byte) 7"
      using k by (simp add: bit7_iff unat_of_nat)
    with b show "\<not> bit (0x80::byte) n \<or> \<not> bit (of_nat k :: byte) n" by auto
  qed
  then show ?thesis using k by (simp add: unat_word_ariths unat_of_nat)
qed

lemma bytes_nat_Cons: "bytes_nat (b # bs) = unat b * 256 ^ length bs + bytes_nat bs"
proof -
  have "foldl (\<lambda>a b. a * 256 + unat b) acc bs =
          acc * 256 ^ length bs + foldl (\<lambda>a b. a * 256 + unat b) 0 bs" for acc
  proof (induction bs arbitrary: acc)
    case Nil
    show ?case by simp
  next
    case (Cons c cs)
    show ?case
      using Cons [of "acc * 256 + unat c"] Cons [of "unat c"]
      by (simp add: algebra_simps)
  qed
  from this [of "unat b"] show ?thesis by (simp add: bytes_nat_def)
qed

lemma parse_long_length_ok:
  "acc * 256 ^ length bs + bytes_nat bs < 2 ^ 31 \<Longrightarrow>
   0 < acc \<or> (bs \<noteq> [] \<and> hd bs \<noteq> 0) \<Longrightarrow>
   parse_long_length (length bs) (bs @ r) acc = Some (acc * 256 ^ length bs + bytes_nat bs, r)"
proof (induction bs arbitrary: acc)
  case Nil
  then show ?case by (cases r) (simp_all add: bytes_nat_Nil)
next
  case (Cons b bs)
  have lt: "acc * 256 * 256 ^ length bs + unat b * 256 ^ length bs + bytes_nat bs < 2 ^ 31"
    using Cons.prems(1) by (simp add: bytes_nat_Cons algebra_simps)
  have "acc * 256 * 1 \<le> acc * 256 * 256 ^ length bs"
    by (rule mult_le_mono2) simp
  with lt have "acc * 256 < 2 ^ 31" by linarith
  then have acc: "acc < 2 ^ 23" by simp
  have nz: "acc * 256 + unat b \<noteq> 0"
    using Cons.prems(2) by (auto simp: unat_eq_0)
  have "(acc * 256 + unat b) * 256 ^ length bs + bytes_nat bs < 2 ^ 31"
    using lt by (simp add: algebra_simps)
  moreover from nz have "0 < acc * 256 + unat b \<or> (bs \<noteq> [] \<and> hd bs \<noteq> 0)" by simp
  ultimately
  have "parse_long_length (length bs) (bs @ r) (acc * 256 + unat b) =
          Some ((acc * 256 + unat b) * 256 ^ length bs + bytes_nat bs, r)"
    by (rule Cons.IH)
  with acc nz show ?case
    by (simp add: bytes_nat_Cons algebra_simps Let_def)
qed

lemma tag_ok:
  "TagInteger AND 0x1F \<noteq> 0x1F" "TagSequence AND 0x1F \<noteq> 0x1F"
  "TagBitString AND 0x1F \<noteq> 0x1F" "TagOID AND 0x1F \<noteq> 0x1F" "TagNull AND 0x1F \<noteq> 0x1F"
  by (simp_all add: TagInteger_def TagSequence_def TagBitString_def TagOID_def TagNull_def)

lemma parseTagAndLength_ok:
  assumes t: "t AND 0x1F \<noteq> 0x1F" and n: "n < 2 ^ 31"
  shows "parseTagAndLength (t # asn1_length n @ r) = Some (t, n, r)"
proof (cases "n < 128")
  case True
  then have "(of_nat n :: byte) AND 0x80 = 0" "unat (of_nat n :: byte) = n"
    by (simp_all add: and_0x80_eq_0 unat_of_nat)
  with True t show ?thesis
    by (simp add: parseTagAndLength_def asn1_length_def)
next
  case False
  let ?bs = "nat_bytes n"
  have pos: "0 < n" using False by simp
  have "n < 256 ^ 4" using n by simp
  then have len: "length ?bs \<le> 4" by (rule length_nat_bytes)
  have len0: "0 < length ?bs" using nat_bytes_ne [OF pos] by simp
  let ?l = "(0x80::byte) OR of_nat (length ?bs)"
  have u: "unat ?l = 128 + length ?bs" using len by (simp add: unat_0x80_or)
  have l1: "?l AND 0x80 \<noteq> 0" using u by (simp add: and_0x80_eq_0)
  have l2: "unat (?l AND 0x7F) = length ?bs" using u len by (simp add: and_0x7F)
  have l3: "?l AND 0x7F \<noteq> 0" using l2 len0 by (metis less_numeral_extra(3) unat_0)
  have "parse_long_length (length ?bs) (?bs @ r) 0 = Some (0 * 256 ^ length ?bs + bytes_nat ?bs, r)"
    by (rule parse_long_length_ok) (use n pos in \<open>simp_all add: bytes_nat_nat_bytes nat_bytes_ne hd_nat_bytes\<close>)
  then have "parse_long_length (length ?bs) (?bs @ r) 0 = Some (n, r)"
    by (simp add: bytes_nat_nat_bytes)
  with False t l1 l2 l3 show ?thesis
    by (simp add: parseTagAndLength_def asn1_length_def Let_def)
qed

lemma parse_element_ok:
  assumes "t AND 0x1F \<noteq> 0x1F" and "length body < 2 ^ 31"
  shows "parse_element (asn1_element t body @ r) = Some (t, body, r)"
  using parseTagAndLength_ok [OF assms, of "body @ r"]
  by (simp add: parse_element_def asn1_element_def)

lemma int_bytes_nat_0_Cons: "bytes_nat (0 # bs) = bytes_nat bs"
  by (simp add: bytes_nat_Cons)

lemma parseBigInt_makeBigInt:
  assumes "0 \<le> n"
  shows "parseBigInt (makeBigInt n) = Some n"
proof (cases "n = 0")
  case True
  then show ?thesis
    by (simp add: makeBigInt_def parseBigInt_def checkInteger_def bytes_nat_def)
next
  case False
  with assms have pos: "0 < nat n" by simp
  let ?bs = "nat_bytes (nat n)"
  obtain b bs' where bs: "?bs = b # bs'"
    using nat_bytes_ne [OF pos] by (cases ?bs) auto
  have b0: "b \<noteq> 0" using hd_nat_bytes [OF pos] bs by simp
  have val: "int (bytes_nat ?bs) = n"
    using assms by (simp add: bytes_nat_nat_bytes)
  show ?thesis
  proof (cases "unat b < 128")
    case True
    then have hb: "b AND 0x80 = 0" by (simp add: and_0x80_eq_0)
    have "b \<noteq> 0xFF" using True by auto
    with b0 have "checkInteger (b # bs')"
      by (cases bs') (simp_all add: checkInteger_def)
    with hb val bs False assms show ?thesis
      by (simp add: makeBigInt_def parseBigInt_def Let_def)
  next
    case False
    then have hb: "b AND 0x80 = 0x80" by (simp add: and_0x80_cases)
    have "checkInteger (0 # b # bs')"
      using hb by (simp add: checkInteger_def)
    with hb val bs \<open>n \<noteq> 0\<close> assms show ?thesis
      by (simp add: makeBigInt_def parseBigInt_def Let_def int_bytes_nat_0_Cons)
  qed
qed

lemma length_makeBigInt:
  assumes "0 \<le> n" "n < 256 ^ k"
  shows "length (makeBigInt n) \<le> Suc k"
proof -
  have "nat n < 256 ^ k" using assms by (simp add: nat_less_iff)
  then have "length (nat_bytes (nat n)) \<le> k" by (rule length_nat_bytes)
  with assms(1) show ?thesis
    by (cases "n = 0") (auto simp: makeBigInt_def Let_def nat_bytes_0)
qed

lemma parse_field_bigint_ok:
  assumes "0 \<le> n" "length (makeBigInt n) < 2 ^ 31"
  shows "parse_field_bigint (marshal_INTEGER n @ r) = Some (n, r)"
  using parse_element_ok [OF tag_ok(1) assms(2), of r] parseBigInt_makeBigInt [OF assms(1)]
  by (simp add: parse_field_bigint_def marshal_INTEGER_def)

lemma parse_optional_bigint_ok:
  assumes "0 \<le> n" "length (makeBigInt n) < 2 ^ 31"
  shows "parse_optional_bigint (marshal_INTEGER n @ r) = Some (Some n, r)"
  using parse_element_ok [OF tag_ok(1) assms(2), of r] parseBigInt_makeBigInt [OF assms(1)]
  by (simp add: parse_optional_bigint_def marshal_INTEGER_def asn1_element_def)

lemma parse_field_int_ok:
  assumes "0 \<le> n" "n < 2 ^ 31"
  shows "parse_field_int (marshal_INTEGER n @ r) = Some (n, r)"
proof -
  have "n < 256 ^ 4" using assms by simp
  from length_makeBigInt [OF assms(1) this] have l: "length (makeBigInt n) \<le> 5" by simp
  then have "length (makeBigInt n) < 2 ^ 31" by simp
  from parse_element_ok [OF tag_ok(1) this, of r] parseBigInt_makeBigInt [OF assms(1)] l
  show ?thesis
    by (simp add: parse_field_int_def parseInt64_def marshal_INTEGER_def)
qed

lemma length_asn1_element: "length body < length (asn1_element t body)"
  by (simp add: asn1_element_def)

lemma marshal_additional_ok:
  assumes "0 \<le> p" "0 \<le> e" "0 \<le> c"
    and "length (marshal_SEQUENCE (marshal_INTEGER p @ marshal_INTEGER e @ marshal_INTEGER c)) < 2 ^ 31"
  shows "parse_additional_prime
           (marshal_SEQUENCE (marshal_INTEGER p @ marshal_INTEGER e @ marshal_INTEGER c) @ r) =
         Some ((p, e, c), r)"
proof -
  let ?body = "marshal_INTEGER p @ marshal_INTEGER e @ marshal_INTEGER c"
  have lb: "length ?body < 2 ^ 31"
    using assms(4) length_asn1_element [of ?body TagSequence]
    by (simp add: marshal_SEQUENCE_def)
  have lp: "length (makeBigInt p) < 2 ^ 31" and le: "length (makeBigInt e) < 2 ^ 31"
    and lc: "length (makeBigInt c) < 2 ^ 31"
    using lb length_asn1_element [of "makeBigInt p" TagInteger]
      length_asn1_element [of "makeBigInt e" TagInteger]
      length_asn1_element [of "makeBigInt c" TagInteger]
    by (simp_all add: marshal_INTEGER_def)
  show ?thesis
    using parse_element_ok [OF tag_ok(2) lb, of r]
      parse_field_bigint_ok [OF assms(1) lp, of "marshal_INTEGER e @ marshal_INTEGER c"]
      parse_field_bigint_ok [OF assms(2) le, of "marshal_INTEGER c"]
      parse_field_bigint_ok [OF assms(3) lc, of "[]"]
    by (simp add: parse_additional_prime_def marshal_SEQUENCE_def)
qed

lemma ModInverse_Some:
  assumes "1 < p" "gcd r p = 1"
  shows "\<exists>c. ModInverse r p = Some c \<and> 0 \<le> c"
proof -
  have "gcd (r mod \<bar>p\<bar>) \<bar>p\<bar> = gcd r p"
    using assms(1) gcd_red_int [of r p] by (simp add: gcd.commute)
  with assms show ?thesis
    by (simp add: ModInverse_def Let_def)
qed

lemma map_fst_crt_triples: "map fst (crt_triples d r ps) = ps"
  by (induction ps arbitrary: r) simp_all

lemma crt_values_those:
  assumes "list_all (\<lambda>p. 1 < p) ps" "list_all (\<lambda>p. gcd r p = 1) ps" "pairwise_coprime ps"
  shows "those (map marshal_additional (crt_values d r ps)) =
           Some (map marshal_triple (crt_triples d r ps)) \<and>
         list_all (\<lambda>a. 0 \<le> fst a \<and> 0 \<le> fst (snd a) \<and> 0 \<le> snd (snd a)) (crt_triples d r ps)"
  using assms
proof (induction ps arbitrary: r)
  case Nil
  show ?case by simp
next
  case (Cons p ps)
  from Cons.prems have p: "1 < p" and g: "gcd r p = 1" by simp_all
  from ModInverse_Some [OF p g] obtain c where c: "ModInverse r p = Some c" "0 \<le> c" by blast
  have "list_all (\<lambda>q. gcd (r * p) q = 1) ps"
    using Cons.prems(2,3)
    by (auto simp: list_all_iff coprime_iff_gcd_eq_1 [symmetric])
  with Cons.prems have IH: "those (map marshal_additional (crt_values d (r * p) ps)) =
           Some (map marshal_triple (crt_triples d (r * p) ps)) \<and>
         list_all (\<lambda>a. 0 \<le> fst a \<and> 0 \<le> fst (snd a) \<and> 0 \<le> snd (snd a)) (crt_triples d (r * p) ps)"
    by (intro Cons.IH) simp_all
  have "0 \<le> d mod \<bar>p - 1\<bar>" using p by simp
  with IH c p show ?case
    by simp
qed

lemma parseSequenceOf_ok:
  assumes "list_all (\<lambda>a. 0 \<le> fst a \<and> 0 \<le> fst (snd a) \<and> 0 \<le> snd (snd a)) ts"
    and "length (concat (map marshal_triple ts)) < 2 ^ 31"
  shows "parseSequenceOf (concat (map marshal_triple ts)) = Some ts"
  using assms
proof (induction ts)
  case Nil
  show ?case by (simp add: parseSequenceOf.simps)
next
  case (Cons a ts)
  obtain p e c where a: "a = (p, e, c)" by (cases a)
  let ?m = "marshal_SEQUENCE (marshal_INTEGER p @ marshal_INTEGER e @ marshal_INTEGER c)"
  from Cons.prems a have nn: "0 \<le> p" "0 \<le> e" "0 \<le> c" by simp_all
  from Cons.prems(2) a have l: "length ?m < 2 ^ 31" "length (concat (map marshal_triple ts)) < 2 ^ 31"
    by simp_all
  have ne: "?m \<noteq> []" by (simp add: marshal_SEQUENCE_def asn1_element_def)
  from Cons.IH Cons.prems(1) l(2)
  have IH: "parseSequenceOf (concat (map marshal_triple ts)) = Some ts" by simp
  from marshal_additional_ok [OF nn l(1), of "concat (map marshal_triple ts)"] IH ne a
  show ?case
    by (simp add: parseSequenceOf.simps [of "?m @ concat (map marshal_triple ts)"])
qed

lemma length_marshal_INTEGER: "length (makeBigInt n) < length (marshal_INTEGER n)"
  by (simp add: marshal_INTEGER_def length_asn1_element)

lemma marshal_SEQUENCE_ne: "marshal_SEQUENCE b \<noteq> []"
  by (simp add: marshal_SEQUENCE_def asn1_element_def)

lemma parse_optional_additional_ok:
  assumes "list_all (\<lambda>a. 0 \<le> fst a \<and> 0 \<le> fst (snd a) \<and> 0 \<le> snd (snd a)) ts"
    and "length (if map marshal_triple ts = [] then []
                 else marshal_SEQUENCE (concat (map marshal_triple ts))) < 2 ^ 31"
  shows "parse_optional_additional
           (if map marshal_triple ts = [] then []
            else marshal_SEQUENCE (concat (map marshal_triple ts))) = Some ts"
proof (cases "ts = []")
  case True
  then show ?thesis by (simp add: parse_optional_additional_def)
next
  case False
  let ?c = "concat (map marshal_triple ts)"
  from False assms(2) have l: "length ?c < 2 ^ 31"
    using length_asn1_element [of ?c TagSequence] by (simp add: marshal_SEQUENCE_def)
  from parse_element_ok [OF tag_ok(2) l, of "[]"] parseSequenceOf_ok [OF assms(1) l] False
  show ?thesis
    by (simp add: parse_optional_additional_def marshal_SEQUENCE_def marshal_SEQUENCE_ne
                  asn1_element_def)
qed

lemma prod_list_pos: "list_all (\<lambda>p. 1 < p) ps \<Longrightarrow> 0 < prod_list (ps :: int list)"
  by (induction ps) simp_all

lemma ParsePKCS1PrivateKey_Marshal:
  assumes v: "valid_private_key k"
    and m: "MarshalPKCS1PrivateKey k = Inr der"
    and l: "length der < 2 ^ 31"
  shows "ParsePKCS1PrivateKey der = Inr k"
proof -
  from v have val: "Validate k = None" and dpos: "0 < D k" and len2: "2 \<le> length (Primes k)"
    and cop: "pairwise_coprime (Primes k)"
    by (simp_all add: valid_private_key_def)
  from len2 obtain p q others where pr: "Primes k = p # q # others"
    by (cases "Primes k"; cases "tl (Primes k)") auto
  from val have e: "2 \<le> E (PublicKey k)" "E (PublicKey k) < 2 ^ 31"
    and gt1: "list_all (\<lambda>p. 1 < p) (Primes k)"
    and n: "prod_list (Primes k) = N (PublicKey k)"
    by (auto simp: Validate_def checkPub_def list_ex_iff list_all_iff not_le
             split: option.splits if_splits)
  from gt1 pr have p1: "1 < p" and q1: "1 < q" and o1: "list_all (\<lambda>p. 1 < p) others"
    by simp_all
  from gt1 n have npos: "0 < N (PublicKey k)" using prod_list_pos by metis
  from cop pr have gpq: "gcd q p = 1" and co: "list_all (\<lambda>x. gcd (p * q) x = 1) others"
    and po: "pairwise_coprime others"
    by (auto simp: list_all_iff coprime_iff_gcd_eq_1 [symmetric] gcd.commute coprime_commute)
  from ModInverse_Some [OF p1 gpq] obtain qi where qi: "ModInverse q p = Some qi" "0 \<le> qi"
    by blast
  let ?ts = "crt_triples (D k) (p * q) others"
  from crt_values_those [OF o1 co po, of "D k"]
  have th: "those (map marshal_additional (crt_values (D k) (p * q) others)) =
              Some (map marshal_triple ?ts)"
    and nn: "list_all (\<lambda>a. 0 \<le> fst a \<and> 0 \<le> fst (snd a) \<and> 0 \<le> snd (snd a)) ?ts"
    by simp_all
  let ?v = "if 2 < length (Primes k) then 1 else (0::int)"
  let ?dp = "D k mod \<bar>p - 1\<bar>" and ?dq = "D k mod \<bar>q - 1\<bar>"
  let ?adds = "if map marshal_triple ?ts = [] then []
               else marshal_SEQUENCE (concat (map marshal_triple ?ts))"
  let ?body = "marshal_INTEGER ?v @ marshal_INTEGER (N (PublicKey k)) @
               marshal_INTEGER (E (PublicKey k)) @ marshal_INTEGER (D k) @
               marshal_INTEGER p @ marshal_INTEGER q @ marshal_INTEGER ?dp @
               marshal_INTEGER ?dq @ marshal_INTEGER qi @ ?adds"
  have no1: "\<not> list_ex (\<lambda>prime. prime = 1) (Primes k)"
    using gt1 by (auto simp: list_ex_iff list_all_iff)
  from m pr qi th no1 have der: "der = marshal_SEQUENCE ?body"
    by (simp add: MarshalPKCS1PrivateKey_def Let_def)
  have lb: "length ?body < 2 ^ 31"
    using l length_asn1_element [of ?body TagSequence] by (simp add: der marshal_SEQUENCE_def)
  have dpn: "0 \<le> ?dp" "0 \<le> ?dq" using p1 q1 by simp_all
  note li = length_marshal_INTEGER
  have la: "length ?adds < 2 ^ 31" using lb by simp
  have lens: "length (makeBigInt ?v) < 2 ^ 31" "length (makeBigInt (N (PublicKey k))) < 2 ^ 31"
    "length (makeBigInt (D k)) < 2 ^ 31" "length (makeBigInt p) < 2 ^ 31"
    "length (makeBigInt q) < 2 ^ 31" "length (makeBigInt ?dp) < 2 ^ 31"
    "length (makeBigInt ?dq) < 2 ^ 31" "length (makeBigInt qi) < 2 ^ 31"
    using lb li [of ?v] li [of "N (PublicKey k)"] li [of "D k"] li [of p] li [of q]
      li [of ?dp] li [of ?dq] li [of qi]
    by simp_all
  have un: "unmarshal_pkcs1PrivateKey der =
      Some (\<lparr>pkVersion = ?v, pkN = N (PublicKey k), pkE = E (PublicKey k), pkD = D k,
             pkP = p, pkQ = q, pkDp = Some ?dp, pkDq = Some ?dq, pkQinv = Some qi,
             pkAdditionalPrimes = ?ts\<rparr>, [])"
    using parse_element_ok [OF tag_ok(2) lb, of "[]"]
      parse_optional_additional_ok [OF nn la]
      lens npos dpos p1 q1 dpn qi(2) e
    by (simp add: unmarshal_pkcs1PrivateKey_def der marshal_SEQUENCE_def
          parse_field_int_ok parse_field_bigint_ok parse_optional_bigint_ok
          del: append_assoc)
  have key: "\<lparr>PublicKey = \<lparr>N = N (PublicKey k), E = E (PublicKey k)\<rparr>, D = D k,
              Primes = p # q # map fst ?ts\<rparr> = k"
    using pr by (simp add: map_fst_crt_triples)
  have "list_ex (\<lambda>a. fst a \<le> 0) ?ts = list_ex (\<lambda>x. x \<le> 0) (map fst ?ts)"
    by (simp add: list_ex_iff)
  also have "\<dots> = list_ex (\<lambda>x. x \<le> 0) others"
    by (simp only: map_fst_crt_triples)
  finally have nex: "\<not> list_ex (\<lambda>a. fst a \<le> 0) ?ts"
    using o1 by (auto simp: list_ex_iff list_all_iff)
  show ?thesis
    using un npos dpos p1 q1 nex val
    by (simp add: ParsePKCS1PrivateKey_def key Let_def)
qed

section \<open>base64: what is encoded decodes back\<close>

lemma distinct_encodeStd: "distinct encodeStd"
  by (simp add: encodeStd_def bytes_of_string_def)

lemma length_encodeStd: "length encodeStd = 64"
  by (simp add: encodeStd_def bytes_of_string_def)

lemma index_of_nth: "distinct xs \<Longrightarrow> i < length xs \<Longrightarrow> index_of (xs ! i) xs = Some i"
proof (induction xs arbitrary: i)
  case Nil
  then show ?case by simp
next
  case (Cons a xs)
  show ?case
  proof (cases i)
    case 0
    then show ?thesis by simp
  next
    case (Suc j)
    with Cons.prems have "xs ! j \<noteq> a" by auto
    with Suc Cons show ?thesis by simp
  qed
qed

lemma index_of_None: "c \<notin> set xs \<Longrightarrow> index_of c xs = None"
  by (induction xs) auto

lemma index_of_Some_less: "index_of c xs = Some i \<Longrightarrow> i < length xs"
  by (induction xs arbitrary: i) (auto split: if_splits)

lemma unat_and_0x3F: "unat ((v::u32) AND 0x3F) < 64"
proof -
  have "(0x3F::u32) = mask 6" by (simp add: mask_eq_exp_minus_1)
  then have "v AND 0x3F = take_bit 6 v" by (simp add: take_bit_eq_mask)
  then show ?thesis by (simp add: take_bit_eq_mod unat_mod)
qed

lemma decodeMap_enc_char: "decodeMap (enc_char v) = ucast (v AND 0x3F)"
proof -
  have "index_of (encodeStd ! unat (v AND 0x3F)) encodeStd = Some (unat (v AND 0x3F))"
    by (rule index_of_nth) (simp_all add: distinct_encodeStd length_encodeStd unat_and_0x3F)
  then show ?thesis
    by (simp add: decodeMap_def enc_char_def)
qed

lemma enc_char_in: "enc_char v \<in> set encodeStd"
  by (simp add: enc_char_def length_encodeStd unat_and_0x3F)

lemma decodeMap_alphabet: "c \<in> set encodeStd \<Longrightarrow> decodeMap c \<noteq> 0xFF"
proof -
  assume "c \<in> set encodeStd"
  then obtain i where i: "i < length encodeStd" "encodeStd ! i = c"
    by (auto simp: in_set_conv_nth)
  with index_of_nth [OF distinct_encodeStd i(1)] have "index_of c encodeStd = Some i" by simp
  moreover have "(of_nat i :: byte) \<noteq> 0xFF"
  proof
    assume "(of_nat i :: byte) = 0xFF"
    then have "unat (of_nat i :: byte) = 255" by simp
    with i(1) show False by (simp add: unat_of_nat length_encodeStd)
  qed
  ultimately show ?thesis by (simp add: decodeMap_def)
qed

lemma decodeMap_other: "c \<notin> set encodeStd \<Longrightarrow> decodeMap c = 0xFF"
  by (simp add: decodeMap_def index_of_None)

lemma set_encodeStd_not:
  "c \<in> set encodeStd \<Longrightarrow>
     c \<noteq> 0x0A \<and> c \<noteq> 0x0D \<and> c \<noteq> 0x3D \<and> c \<noteq> 0x2D \<and> c \<noteq> 0x3A \<and> c \<noteq> 0x20 \<and> c \<noteq> 0x09"
  by (auto simp: encodeStd_def bytes_of_string_def)

lemma x3F_mask: "(0x3F::u32) = mask 6"
  by (simp add: mask_eq_exp_minus_1)

lemma ucast_sextet: "(ucast (ucast ((x::u32) AND 0x3F) :: byte) :: u32) = x AND 0x3F"
  unfolding x3F_mask
  by (rule bit_word_eqI) (auto simp: bit_simps)

lemma recombine:
  fixes val :: u32
  assumes hi: "\<And>n. 24 \<le> n \<Longrightarrow> \<not> bit val n"
  shows "push_bit 18 (drop_bit 18 val AND 0x3F) OR push_bit 12 (drop_bit 12 val AND 0x3F) OR
         push_bit 6 (drop_bit 6 val AND 0x3F) OR (val AND 0x3F) = val"
  unfolding x3F_mask
proof (rule bit_word_eqI)
  fix n assume "n < LENGTH(32)"
  consider "n < 6" | "6 \<le> n" "n < 12" | "12 \<le> n" "n < 18" | "18 \<le> n" "n < 24" | "24 \<le> n"
    by linarith
  then show "bit (push_bit 18 (drop_bit 18 val AND mask 6) OR push_bit 12 (drop_bit 12 val AND mask 6) OR
         push_bit 6 (drop_bit 6 val AND mask 6) OR (val AND mask 6)) n = bit val n"
    by cases (auto simp: bit_simps hi)
qed

lemma val3_hi:
  fixes b0 b1 b2 :: byte
  shows "24 \<le> n \<Longrightarrow> \<not> bit (push_bit 16 (ucast b0) OR push_bit 8 (ucast b1) OR (ucast b2 :: u32)) n"
  by (auto simp: bit_simps dest: bit_imp_le_length)

lemma val3_bytes:
  fixes b0 b1 b2 :: byte
  defines "val \<equiv> push_bit 16 (ucast b0) OR push_bit 8 (ucast b1) OR (ucast b2 :: u32)"
  shows "ucast (drop_bit 16 val) = b0" "ucast (drop_bit 8 val) = b1" "ucast val = b2"
  unfolding val_def
  by (rule bit_word_eqI; auto simp: bit_simps dest: bit_imp_le_length)+

lemma recombine3:
  fixes val :: u32
  assumes hi: "\<And>n. 24 \<le> n \<Longrightarrow> \<not> bit val n" and lo: "\<And>n. n < 6 \<Longrightarrow> \<not> bit val n"
  shows "push_bit 18 (drop_bit 18 val AND 0x3F) OR push_bit 12 (drop_bit 12 val AND 0x3F) OR
         push_bit 6 (drop_bit 6 val AND 0x3F) OR 0 = val"
  unfolding x3F_mask
proof (rule bit_word_eqI)
  fix n assume "n < LENGTH(32)"
  consider "n < 6" | "6 \<le> n" "n < 12" | "12 \<le> n" "n < 18" | "18 \<le> n" "n < 24" | "24 \<le> n"
    by linarith
  then show "bit (push_bit 18 (drop_bit 18 val AND mask 6) OR push_bit 12 (drop_bit 12 val AND mask 6) OR
         push_bit 6 (drop_bit 6 val AND mask 6) OR 0) n = bit val n"
    by cases (auto simp: bit_simps hi lo)
qed

lemma recombine2:
  fixes val :: u32
  assumes hi: "\<And>n. 24 \<le> n \<Longrightarrow> \<not> bit val n" and lo: "\<And>n. n < 12 \<Longrightarrow> \<not> bit val n"
  shows "push_bit 18 (drop_bit 18 val AND 0x3F) OR push_bit 12 (drop_bit 12 val AND 0x3F) OR
         0 OR 0 = val"
  unfolding x3F_mask
proof (rule bit_word_eqI)
  fix n assume "n < LENGTH(32)"
  consider "n < 12" | "12 \<le> n" "n < 18" | "18 \<le> n" "n < 24" | "24 \<le> n"
    by linarith
  then show "bit (push_bit 18 (drop_bit 18 val AND mask 6) OR push_bit 12 (drop_bit 12 val AND mask 6) OR
         0 OR 0) n = bit val n"
    by cases (auto simp: bit_simps hi lo)
qed

lemma val2_bits:
  fixes b0 b1 :: byte
  shows "24 \<le> n \<or> n < 6 \<Longrightarrow> \<not> bit (push_bit 16 (ucast b0) OR push_bit 8 (ucast b1) :: u32) n"
  by (auto simp: bit_simps dest: bit_imp_le_length)

lemma val2_bytes:
  fixes b0 b1 :: byte
  defines "val \<equiv> push_bit 16 (ucast b0) OR push_bit 8 (ucast b1) :: u32"
  shows "ucast (drop_bit 16 val) = b0" "ucast (drop_bit 8 val) = b1"
  unfolding val_def
  by (rule bit_word_eqI; auto simp: bit_simps dest: bit_imp_le_length)+

lemma val1_bits:
  fixes b0 :: byte
  shows "24 \<le> n \<or> n < 12 \<Longrightarrow> \<not> bit (push_bit 16 (ucast b0) :: u32) n"
  by (auto simp: bit_simps dest: bit_imp_le_length)

lemma val1_bytes:
  fixes b0 :: byte
  shows "ucast (drop_bit 16 (push_bit 16 (ucast b0) :: u32)) = b0"
  by (rule bit_word_eqI; auto simp: bit_simps dest: bit_imp_le_length)

lemma quantum_lists:
  "quantum [d0, d1, d2, d3] =
     [ucast (drop_bit 16 (assemble d0 d1 d2 d3)), ucast (drop_bit 8 (assemble d0 d1 d2 d3)),
      ucast (assemble d0 d1 d2 d3)]"
  "quantum [d0, d1, d2] =
     [ucast (drop_bit 16 (assemble d0 d1 d2 0)), ucast (drop_bit 8 (assemble d0 d1 d2 0))]"
  "quantum [d0, d1] = [ucast (drop_bit 16 (assemble d0 d1 0 0))]"
  by (simp_all add: quantum_def Let_def numeral_3_eq_3 numeral_2_eq_2)

lemma quantum4:
  fixes b0 b1 b2 :: byte
  defines "val \<equiv> push_bit 16 (ucast b0) OR push_bit 8 (ucast b1) OR (ucast b2 :: u32)"
  shows "quantum [decodeMap (enc_char (drop_bit 18 val)), decodeMap (enc_char (drop_bit 12 val)),
                  decodeMap (enc_char (drop_bit 6 val)), decodeMap (enc_char val)] = [b0, b1, b2]"
proof -
  have hi: "\<And>n. 24 \<le> n \<Longrightarrow> \<not> bit val n"
    unfolding val_def by (rule val3_hi)
  have "assemble (decodeMap (enc_char (drop_bit 18 val))) (decodeMap (enc_char (drop_bit 12 val)))
          (decodeMap (enc_char (drop_bit 6 val))) (decodeMap (enc_char val)) = val"
    by (simp only: assemble_def decodeMap_enc_char ucast_sextet recombine [OF hi])
  then show ?thesis
    by (simp only: quantum_lists val_def val3_bytes)
qed

lemma quantum3:
  fixes b0 b1 :: byte
  defines "val \<equiv> push_bit 16 (ucast b0) OR push_bit 8 (ucast b1) :: u32"
  shows "quantum [decodeMap (enc_char (drop_bit 18 val)), decodeMap (enc_char (drop_bit 12 val)),
                  decodeMap (enc_char (drop_bit 6 val))] = [b0, b1]"
proof -
  have hi: "\<And>n. 24 \<le> n \<Longrightarrow> \<not> bit val n" and lo: "\<And>n. n < 6 \<Longrightarrow> \<not> bit val n"
    unfolding val_def by (simp_all add: val2_bits)
  have u0: "ucast (0::byte) = (0::u32)" by simp
  have "assemble (decodeMap (enc_char (drop_bit 18 val))) (decodeMap (enc_char (drop_bit 12 val)))
          (decodeMap (enc_char (drop_bit 6 val))) 0 = val"
    by (simp only: assemble_def decodeMap_enc_char ucast_sextet u0 recombine3 [OF hi lo])
  then show ?thesis
    by (simp only: quantum_lists val_def val2_bytes)
qed

lemma quantum2:
  fixes b0 :: byte
  defines "val \<equiv> push_bit 16 (ucast b0) :: u32"
  shows "quantum [decodeMap (enc_char (drop_bit 18 val)), decodeMap (enc_char (drop_bit 12 val))] = [b0]"
proof -
  have hi: "\<And>n. 24 \<le> n \<Longrightarrow> \<not> bit val n" and lo: "\<And>n. n < 12 \<Longrightarrow> \<not> bit val n"
    unfolding val_def by (simp_all add: val1_bits)
  have u0: "ucast (0::byte) = (0::u32)" "push_bit 6 (0::u32) = 0" by simp_all
  have "assemble (decodeMap (enc_char (drop_bit 18 val))) (decodeMap (enc_char (drop_bit 12 val)))
          0 0 = val"
    by (simp only: assemble_def decodeMap_enc_char ucast_sextet u0 recombine2 [OF hi lo])
  then show ?thesis
    by (simp only: quantum_lists val_def val1_bytes)
qed

lemma decodeMap_enc_char_ne: "decodeMap (enc_char v) \<noteq> 0xFF"
  by (rule decodeMap_alphabet) (rule enc_char_in)

lemma padChar_props: "decodeMap padChar = 0xFF" "\<not> is_newline padChar"
  by (simp_all add: decodeMap_def padChar_def is_newline_def encodeStd_def bytes_of_string_def)

lemma decode_loop_4:
  "decode_loop (enc_char v0 # enc_char v1 # enc_char v2 # enc_char v3 # src) [] =
     map_option (\<lambda>r. quantum [decodeMap (enc_char v0), decodeMap (enc_char v1),
                                decodeMap (enc_char v2), decodeMap (enc_char v3)] @ r)
       (decode_loop src [])"
  by (simp add: decodeMap_enc_char_ne)

lemma decode_loop_3:
  "decode_loop [enc_char v0, enc_char v1, enc_char v2, padChar] [] =
     Some (quantum [decodeMap (enc_char v0), decodeMap (enc_char v1), decodeMap (enc_char v2)])"
  by (simp add: decodeMap_enc_char_ne padChar_props)

lemma decode_loop_2:
  "decode_loop [enc_char v0, enc_char v1, padChar, padChar] [] =
     Some (quantum [decodeMap (enc_char v0), decodeMap (enc_char v1)])"
  by (simp add: decodeMap_enc_char_ne padChar_props)

lemma decode_loop_Encode: "decode_loop (base64_Encode bs) [] = Some bs"
proof (induction bs rule: base64_Encode.induct)
  case (1 b0 b1 b2 src)
  then show ?case
    by (simp only: base64_Encode.simps Let_def decode_loop_4 quantum4) simp
next
  case (2 b0 b1)
  show ?case
    by (simp only: base64_Encode.simps Let_def decode_loop_3 quantum3)
next
  case (3 b0)
  show ?case
    by (simp only: base64_Encode.simps Let_def decode_loop_2 quantum2)
next
  case 4
  show ?case by simp
qed

lemma set_base64_Encode: "set (base64_Encode bs) \<subseteq> insert padChar (set encodeStd)"
  by (induction bs rule: base64_Encode.induct) (auto simp: Let_def enc_char_in)

lemma dropWhile_filter_not: "dropWhile P (filter (\<lambda>c. \<not> P c) xs) = filter (\<lambda>c. \<not> P c) xs"
  by (induction xs) simp_all

lemma dropWhile_Nil_filter: "(dropWhile P xs = []) = (filter (\<lambda>c. \<not> P c) xs = [])"
  by (induction xs) simp_all

lemma dropWhile_Cons_filter:
  "dropWhile P xs = c # ys \<Longrightarrow> filter (\<lambda>c. \<not> P c) xs = c # filter (\<lambda>c. \<not> P c) ys"
  by (induction xs) (auto split: if_splits)

lemma is_newline_decodeMap: "is_newline c \<Longrightarrow> decodeMap c = 0xFF"
  by (rule decodeMap_other) (auto simp: is_newline_def dest: set_encodeStd_not)

lemma decode_loop_filter:
  "decode_loop (filter (\<lambda>c. \<not> is_newline c) s) dbuf = decode_loop s dbuf"
proof (induction s arbitrary: dbuf)
  case Nil
  show ?case by simp
next
  case (Cons c s)
  let ?f = "filter (\<lambda>c. \<not> is_newline c)"
  show ?case
  proof (cases "is_newline c")
    case True
    with Cons show ?thesis by (simp add: is_newline_decodeMap)
  next
    case nl: False
    show ?thesis
    proof (cases "decodeMap c \<noteq> 0xFF")
      case True
      with nl Cons show ?thesis by simp
    next
      case False
      have e1: "(dropWhile is_newline (?f s) \<noteq> []) = (dropWhile is_newline s \<noteq> [])"
        by (simp only: dropWhile_filter_not dropWhile_Nil_filter)
      have e2: "(case dropWhile is_newline (?f s) of [] \<Rightarrow> None
                 | c2 # src2 \<Rightarrow> if c2 \<noteq> padChar then None
                                else if dropWhile is_newline src2 \<noteq> [] then None
                                else Some (quantum dbuf)) =
                (case dropWhile is_newline s of [] \<Rightarrow> None
                 | c2 # src2 \<Rightarrow> if c2 \<noteq> padChar then None
                                else if dropWhile is_newline src2 \<noteq> [] then None
                                else Some (quantum dbuf))"
      proof (cases "dropWhile is_newline s")
        case Nil
        then have "?f s = []" by (simp only: dropWhile_Nil_filter)
        then have "dropWhile is_newline (?f s) = []" by simp
        with Nil show ?thesis by (simp only: list.case)
      next
        case (Cons c2 src2)
        have "dropWhile is_newline (?f s) = ?f s"
          by (rule dropWhile_filter_not)
        with dropWhile_Cons_filter [OF Cons]
        have "dropWhile is_newline (?f s) = c2 # ?f src2"
          by (rule_tac trans)
        moreover have "(dropWhile is_newline (?f src2) \<noteq> []) = (dropWhile is_newline src2 \<noteq> [])"
          by (simp only: dropWhile_filter_not dropWhile_Nil_filter)
        ultimately show ?thesis using Cons by (simp only: list.case)
      qed
      from False nl show ?thesis
        by (simp add: e1 e2 del: dropWhile_eq_Nil_conv)
    qed
  qed
qed

section \<open>PEM: what is encoded decodes back\<close>

lemma HasPrefix_single: "HasPrefix s [c] \<longleftrightarrow> s \<noteq> [] \<and> hd s = c"
  by (cases s) (auto simp: HasPrefix_def)

lemma HasPrefix_append: "HasPrefix (pre @ s) pre"
  by (simp add: HasPrefix_def)

lemma HasSuffix_append: "HasSuffix (s @ suf) suf"
  by (simp add: HasSuffix_def)

lemma Index_single:
  "Index s [c] = (if c \<in> set s then Some (length (takeWhile (\<lambda>x. x \<noteq> c) s)) else None)"
  by (induction s) (auto simp: HasPrefix_single)

lemma takeWhile_append_hit:
  "c \<notin> set pre \<Longrightarrow> takeWhile (\<lambda>x. x \<noteq> c) (pre @ c # s) = pre"
  by (induction pre) auto

lemma TrimRight_sp_tab_id: "s \<noteq> [] \<Longrightarrow> \<not> is_sp_tab (last s) \<Longrightarrow> TrimRight_sp_tab s = s"
  by (cases s rule: rev_cases) (simp_all add: TrimRight_sp_tab_def)

lemma TrimRight_sp_tab_Nil: "TrimRight_sp_tab [] = []"
  by (simp add: TrimRight_sp_tab_def)

lemma set_TrimRight_sp_tab: "set (TrimRight_sp_tab s) \<subseteq> set s"
  using set_dropWhileD [of _ is_sp_tab "rev s"] by (auto simp: TrimRight_sp_tab_def)

text \<open>The first line of data whose first line break is a bare \<open>\n\<close>.\<close>

lemma getLine_line:
  assumes "0x0A \<notin> set pre" and "pre = [] \<or> last pre \<noteq> 0x0D"
  shows "getLine (pre @ 0x0A # s) = (TrimRight_sp_tab pre, s)"
proof -
  have i: "Index (pre @ 0x0A # s) [0x0A] = Some (length pre)"
    using assms(1) by (simp add: Index_single takeWhile_append_hit)
  have "\<not> (0 < length pre \<and> (pre @ 0x0A # s) ! (length pre - 1) = 0x0D)"
  proof (cases pre rule: rev_cases)
    case Nil
    then show ?thesis by simp
  next
    case (snoc ys y)
    with assms(2) show ?thesis by (simp add: nth_append)
  qed
  with i show ?thesis by (auto simp: getLine_def Let_def)
qed

lemma string_of_bytes_of_string: "string_of_bytes (bytes_of_string t) = t"
proof -
  have "char_of (unat (of_char c :: byte)) = c" for c
  proof -
    have "(of_char c :: byte) = of_nat (of_char c)" by (simp only: of_nat_of_char)
    then have "unat (of_char c :: byte) = of_char c mod 256"
      by (simp only: unat_of_nat) simp
    then show ?thesis by simp
  qed
  then show ?thesis
    by (simp add: string_of_bytes_def bytes_of_string_def comp_def map_idI)
qed

lemma b64chars_not:
  "c \<in> b64chars \<Longrightarrow>
     c \<noteq> 0x0A \<and> c \<noteq> 0x0D \<and> c \<noteq> 0x2D \<and> c \<noteq> 0x3A \<and> c \<noteq> 0x20 \<and> c \<noteq> 0x09"
  using set_encodeStd_not [of c] by (auto simp: b64chars_def padChar_def)

lemma breakLines_Nil: "breakLines [] = []"
  by (simp add: breakLines.simps)

lemma breakLines_ne:
  "s \<noteq> [] \<Longrightarrow> breakLines s = take pemLineLength s @ [0x0A] @ breakLines (drop pemLineLength s)"
  by (simp add: breakLines.simps [of s])

lemma set_breakLines: "set (breakLines s) \<subseteq> insert 0x0A (set s)"
proof (induction s rule: breakLines.induct)
  case (1 s)
  show ?case
  proof (cases "s = []")
    case True
    then show ?thesis by (simp add: breakLines_Nil)
  next
    case False
    with 1 have "set (breakLines (drop pemLineLength s)) \<subseteq> insert 0x0A (set (drop pemLineLength s))"
      by simp
    with False show ?thesis
      using set_take_subset [of pemLineLength s] set_drop_subset [of pemLineLength s]
      by (auto simp: breakLines_ne)
  qed
qed

lemma filter_breakLines:
  "0x0A \<notin> set s \<Longrightarrow> 0x0D \<notin> set s \<Longrightarrow> filter (\<lambda>c. \<not> is_newline c) (breakLines s) = s"
proof (induction s rule: breakLines.induct)
  case (1 s)
  show ?case
  proof (cases "s = []")
    case True
    then show ?thesis by (simp add: breakLines_Nil)
  next
    case False
    have d: "0x0A \<notin> set (drop pemLineLength s)" "0x0D \<notin> set (drop pemLineLength s)"
      using "1.prems" by (auto dest: in_set_dropD)
    have t: "filter (\<lambda>c. \<not> is_newline c) (take pemLineLength s) = take pemLineLength s"
      using "1.prems" by (auto simp: filter_id_conv is_newline_def dest: in_set_takeD)
    from "1.IH" [OF False d] t False show ?thesis
      by (simp add: breakLines_ne is_newline_def)
  qed
qed

lemma breakLines_last:
  "s \<noteq> [] \<Longrightarrow> \<exists>body. breakLines s = body @ [0x0A] \<and> body \<noteq> [] \<and> hd body = hd s"
proof (induction s rule: breakLines.induct)
  case (1 s)
  from "1.prems" have tk: "take pemLineLength s \<noteq> []" "hd (take pemLineLength s) = hd s"
    by (simp_all add: pemLineLength_def)
  show ?case
  proof (cases "drop pemLineLength s = []")
    case True
    with "1.prems" tk show ?thesis
      by (simp add: breakLines_ne breakLines_Nil)
  next
    case False
    from "1.IH" [OF "1.prems" False] obtain body where
      b: "breakLines (drop pemLineLength s) = body @ [0x0A]" by blast
    have "breakLines s = (take pemLineLength s @ [0x0A] @ body) @ [0x0A]"
      using "1.prems" b by (simp add: breakLines_ne)
    with tk show ?thesis by (intro exI [of _ "take pemLineLength s @ [0x0A] @ body"]) simp
  qed
qed

text \<open>The \<open>END\<close> marker is not found inside lines without a dash.\<close>

lemma Index_pemEnd:
  "0x2D \<notin> set body \<Longrightarrow> Index (body @ pemEnd @ s) pemEnd = Some (length body)"
proof (induction body)
  case Nil
  show ?case by (simp add: pemEnd_def HasPrefix_def)
next
  case (Cons c body)
  have "\<not> HasPrefix ((c # body) @ pemEnd @ s) pemEnd"
  proof (cases body)
    case Nil
    then show ?thesis by (simp add: pemEnd_def HasPrefix_def bytes_of_string_def)
  next
    case (Cons d ds)
    with Cons.prems show ?thesis
      by (auto simp: pemEnd_def HasPrefix_def bytes_of_string_def)
  qed
  with Cons show ?case by simp
qed

lemma set_takeWhile_append_hit: "set (takeWhile (\<lambda>x. x \<noteq> c) (xs @ c # ys)) \<subseteq> set xs"
  by (induction xs) auto

lemma getLine_fst_subset: "set (fst (getLine data)) \<subseteq> set (takeWhile (\<lambda>x. x \<noteq> 0x0A) data)"
proof (cases "0x0A \<in> set data")
  case False
  then have tw: "takeWhile (\<lambda>x. x \<noteq> 0x0A) data = data" by (auto simp: takeWhile_eq_all_conv)
  from False have "fst (getLine data) = TrimRight_sp_tab data"
    by (simp add: getLine_def Index_single)
  then show ?thesis
    using set_TrimRight_sp_tab [of data] by (simp only: tw)
next
  case True
  let ?tw = "takeWhile (\<lambda>x. x \<noteq> 0x0A) data"
  have tk: "take (length ?tw) data = ?tw"
    by (simp add: takeWhile_eq_take [symmetric])
  have "set (take (length ?tw - 1) data) \<subseteq> set (take (length ?tw) data)"
    by (rule set_take_subset_set_take) simp
  with True tk show ?thesis
    using set_TrimRight_sp_tab [of "take (length ?tw) data"]
      set_TrimRight_sp_tab [of "take (length ?tw - 1) data"]
    by (auto simp: getLine_def Index_single Let_def)
qed

lemma Index_colon_None: "0x3A \<notin> set s \<Longrightarrow> Cut s colon = None"
  by (simp add: Cut_def colon_def Index_single)

lemma pem_lengths: "length pemEnd = 10" "length pemEndOfLine = 5" "length pemStart = 12"
  "length (tl pemEnd) = 9"
  by (simp_all add: pemEnd_def pemEndOfLine_def pemStart_def bytes_of_string_def)

lemma pem_markers:
  "0x0A \<notin> set pemEndOfLine" "0x3A \<notin> set pemEndOfLine" "last pemEndOfLine = 0x2D"
  "pemEndOfLine \<noteq> []" "0x0A \<notin> set (tl pemEnd)" "0x3A \<notin> set (tl pemEnd)"
  "last pemEnd = 0x20" "pemEnd \<noteq> []"
  by (simp_all add: pemEnd_def pemEndOfLine_def bytes_of_string_def)

lemma pemEnd_split: "pemEnd = 0x0A # tl pemEnd" "pemEnd = butlast pemEnd @ [0x20]"
  "length (butlast pemEnd) = 9"
  by (simp_all add: pemEnd_def bytes_of_string_def)

lemma getLine_type_line:
  assumes "0x0A \<notin> set T"
  shows "getLine (T @ pemEndOfLine @ 0x0A # s) = (T @ pemEndOfLine, s)"
    and "getLine (tl pemEnd @ T @ pemEndOfLine @ 0x0A # s) = (tl pemEnd @ T @ pemEndOfLine, s)"
    and "getLine (0x20 # T @ pemEndOfLine @ 0x0A # s) = (0x20 # T @ pemEndOfLine, s)"
proof -
  have tr: "TrimRight_sp_tab (pre @ pemEndOfLine) = pre @ pemEndOfLine" for pre
    by (rule TrimRight_sp_tab_id) (simp_all add: pem_markers is_sp_tab_def)
  have g: "getLine ((pre @ pemEndOfLine) @ 0x0A # s) = (TrimRight_sp_tab (pre @ pemEndOfLine), s)"
    if "0x0A \<notin> set pre" for pre
    by (rule getLine_line) (use that in \<open>simp_all add: pem_markers\<close>)
  show "getLine (T @ pemEndOfLine @ 0x0A # s) = (T @ pemEndOfLine, s)"
    using g [of T] assms by (simp add: tr)
  show "getLine (tl pemEnd @ T @ pemEndOfLine @ 0x0A # s) = (tl pemEnd @ T @ pemEndOfLine, s)"
    using g [of "tl pemEnd @ T"] assms tr [of "tl pemEnd @ T"] by (simp add: pem_markers)
  show "getLine (0x20 # T @ pemEndOfLine @ 0x0A # s) = (0x20 # T @ pemEndOfLine, s)"
    using g [of "0x20 # T"] assms tr [of "0x20 # T"] by simp
qed

lemma getLine_newline: "getLine [0x0A] = ([], [])"
  using getLine_line [of "[]" "[]"] by (simp add: TrimRight_sp_tab_Nil)

lemma base64_Encode_Nil_iff: "base64_Encode bs = [] \<longleftrightarrow> bs = []"
  by (induction bs rule: base64_Encode.induct) (simp_all add: Let_def)

lemma set_base64_b64chars: "set (base64_Encode bs) \<subseteq> b64chars"
  using set_base64_Encode [of bs] by (simp add: b64chars_def)

lemma parse_headers_none:
  assumes "rest \<noteq> []" "0x3A \<notin> set (fst (getLine rest))"
  shows "parse_headers rest = Some ([], rest)"
  using assms by (simp add: parse_headers.simps [of rest] Index_colon_None)

text \<open>The pass of \<open>Decode\<close> over an encoded block without headers, empty body.\<close>

lemma pem_attempt_empty:
  assumes T: "0x0A \<notin> set T" "0x3A \<notin> set T"
  shows "pem_attempt (T @ pemEndOfLine @ [0x0A] @ tl pemEnd @ T @ pemEndOfLine @ [0x0A]) =
           Found \<lparr>Type = string_of_bytes T, Headers = [], Bytes = []\<rparr> []"
proof -
  let ?rest = "tl pemEnd @ T @ pemEndOfLine @ [0x0A]"
  have g1: "getLine (T @ pemEndOfLine @ [0x0A] @ ?rest) = (T @ pemEndOfLine, ?rest)"
    using getLine_type_line(1) [OF T(1), of ?rest] by simp
  have g2: "getLine ?rest = (tl pemEnd @ T @ pemEndOfLine, [])"
    using getLine_type_line(2) [OF T(1), of "[]"] by simp
  have ph: "parse_headers ?rest = Some ([], ?rest)"
    by (rule parse_headers_none) (simp_all add: g2 T pem_markers)
  have g3: "getLine (T @ pemEndOfLine @ [0x0A]) = (T @ pemEndOfLine, [])"
    using getLine_type_line(1) [OF T(1), of "[]"] by simp
  have dec: "base64_Decode [] = Inr []"
    by (simp add: base64_Decode_def)
  show ?thesis
    unfolding pem_attempt_def g1
    by (simp add: ph HasSuffix_append HasPrefix_append pem_lengths g3 getLine_newline dec
          removeSpacesAndTabs_def)
qed

lemma HasPrefix_hd: "HasPrefix s pre \<Longrightarrow> pre \<noteq> [] \<Longrightarrow> s \<noteq> [] \<and> hd s = hd pre"
  by (cases s; cases pre) (auto simp: HasPrefix_def)

text \<open>The same pass over a block whose body has lines.\<close>

lemma pem_attempt_body:
  assumes T: "0x0A \<notin> set T" "0x3A \<notin> set T"
    and body: "body \<noteq> []" "hd body \<in> b64chars" "set body \<subseteq> insert 0x0A b64chars"
    and dec: "base64_Decode body = Inr bs"
  shows "pem_attempt (T @ pemEndOfLine @ [0x0A] @ body @ pemEnd @ T @ pemEndOfLine @ [0x0A]) =
           Found \<lparr>Type = string_of_bytes T, Headers = [], Bytes = bs\<rparr> []"
proof -
  let ?tail = "T @ pemEndOfLine @ [0x0A]"
  let ?rest = "body @ pemEnd @ ?tail"
  have "c \<noteq> 0x2D \<and> c \<noteq> 0x3A \<and> \<not> is_sp_tab c" if "c \<in> set body" for c
  proof (cases "c = 0x0A")
    case True
    then show ?thesis by (simp add: is_sp_tab_def)
  next
    case False
    with that body(3) have "c \<in> b64chars" by auto
    from b64chars_not [OF this] show ?thesis by (simp add: is_sp_tab_def)
  qed
  then have no: "0x2D \<notin> set body" "0x3A \<notin> set body" "\<forall>c \<in> set body. \<not> is_sp_tab c"
    by blast+
  have g1: "getLine (T @ pemEndOfLine @ [0x0A] @ ?rest) = (T @ pemEndOfLine, ?rest)"
    using getLine_type_line(1) [OF T(1), of ?rest] by simp
  have r: "?rest = body @ 0x0A # (tl pemEnd @ ?tail)"
    by (subst pemEnd_split(1)) simp
  have "set (takeWhile (\<lambda>x. x \<noteq> 0x0A) ?rest) \<subseteq> set body"
    unfolding r by (rule set_takeWhile_append_hit)
  with getLine_fst_subset [of ?rest] no(2) have "0x3A \<notin> set (fst (getLine ?rest))"
    by blast
  then have ph: "parse_headers ?rest = Some ([], ?rest)"
    using body(1) by (intro parse_headers_none) simp_all
  have hp: "\<not> HasPrefix ?rest (tl pemEnd)"
  proof
    assume "HasPrefix ?rest (tl pemEnd)"
    from HasPrefix_hd [OF this] have "hd ?rest = 0x2D"
      by (simp add: pemEnd_def bytes_of_string_def)
    with body(1,2) b64chars_not [of "hd body"] show False by simp
  qed
  have ix: "Index ?rest pemEnd = Some (length body)"
    using no(1) by (rule Index_pemEnd)
  have d1: "drop (length body + length pemEnd) ?rest = ?tail" by simp
  have "?rest = (body @ butlast pemEnd) @ 0x20 # ?tail"
    using pemEnd_split(2) by (metis append.assoc append_Cons append_Nil)
  then have "drop (length (body @ butlast pemEnd)) ?rest = 0x20 # ?tail"
    by (metis append_eq_conv_conj)
  then have d2: "drop (9 + length body) ?rest = 0x20 # ?tail"
    by (simp add: pem_lengths add.commute del: drop_append)
  have t5: "take (length T + 5) ?tail = T @ pemEndOfLine" "drop (length T + 5) ?tail = [0x0A]"
    "take (length T) (T @ pemEndOfLine) = T"
    by (simp_all add: pem_lengths)
  have g3: "getLine ?tail = (T @ pemEndOfLine, [])"
    using getLine_type_line(1) [OF T(1), of "[]"] by simp
  have g4: "getLine (0x20 # ?tail) = (0x20 # T @ pemEndOfLine, [])"
    using getLine_type_line(3) [OF T(1), of "[]"] by simp
  have rs: "removeSpacesAndTabs body = body"
    using no(3) by (simp add: removeSpacesAndTabs_def filter_id_conv)
  have tk: "take (length body) ?rest = body" by simp
  show ?thesis
    unfolding pem_attempt_def g1
    by (simp add: ph hp ix d1 d2 g3 g4 rs dec HasSuffix_append HasPrefix_append getLine_newline
          del: append_assoc drop_append take_append)
       (simp add: pem_lengths Let_def HasSuffix_append HasPrefix_append getLine_newline
          tk rs dec d2 g4 t5 del: drop_append take_append)
qed

lemma after_pemStart_Encode: "after_pemStart (tl pemStart @ s) = Some s"
  by (simp add: after_pemStart_def HasPrefix_append pem_lengths)

lemma base64_Decode_lines:
  assumes "breakLines (base64_Encode bs) = body @ [0x0A]"
  shows "base64_Decode body = Inr bs"
proof -
  let ?e = "base64_Encode bs"
  have nl: "0x0A \<notin> set ?e" "0x0D \<notin> set ?e"
    using set_base64_b64chars [of bs] b64chars_not by blast+
  have "filter (\<lambda>c. \<not> is_newline c) body = filter (\<lambda>c. \<not> is_newline c) (body @ [0x0A])"
    by (simp add: is_newline_def)
  also have "\<dots> = ?e"
    using filter_breakLines [OF nl] assms by simp
  finally have "decode_loop body [] = decode_loop ?e []"
    using decode_loop_filter [of body "[]"] by simp
  then show ?thesis
    by (simp add: base64_Decode_def decode_loop_Encode)
qed

lemma pem_Decode_EncodeToMemory:
  assumes T: "0x0A \<notin> set (bytes_of_string t)" "0x3A \<notin> set (bytes_of_string t)"
  shows "pem_Decode (EncodeToMemory \<lparr>Type = t, Headers = [], Bytes = bs\<rparr>) =
           (Some \<lparr>Type = t, Headers = [], Bytes = bs\<rparr>, [])"
proof -
  let ?T = "bytes_of_string t"
  let ?X = "breakLines (base64_Encode bs)"
  let ?rest1 = "?T @ pemEndOfLine @ [0x0A] @ ?X @ tl pemEnd @ ?T @ pemEndOfLine @ [0x0A]"
  have enc: "EncodeToMemory \<lparr>Type = t, Headers = [], Bytes = bs\<rparr> = tl pemStart @ ?rest1"
    by (simp add: EncodeToMemory_def header_lines_def)
  have att: "pem_attempt ?rest1 = Found \<lparr>Type = t, Headers = [], Bytes = bs\<rparr> []"
  proof (cases "bs = []")
    case True
    then have "?X = []" by (simp add: breakLines_Nil)
    with pem_attempt_empty [OF T] True show ?thesis
      by (simp add: string_of_bytes_of_string)
  next
    case False
    then have ne: "base64_Encode bs \<noteq> []" by (simp add: base64_Encode_Nil_iff)
    from breakLines_last [OF ne] obtain body where
      b: "?X = body @ [0x0A]" "body \<noteq> []" "hd body = hd (base64_Encode bs)" by blast
    have hd: "hd body \<in> b64chars"
      using b(3) ne set_base64_b64chars [of bs] hd_in_set [OF ne] by auto
    have "set body \<subseteq> set ?X" using b(1) by auto
    also have "\<dots> \<subseteq> insert 0x0A (set (base64_Encode bs))" by (rule set_breakLines)
    also have "\<dots> \<subseteq> insert 0x0A b64chars" using set_base64_b64chars [of bs] by auto
    finally have sb: "set body \<subseteq> insert 0x0A b64chars" .
    have dec: "base64_Decode body = Inr bs" using b(1) by (rule base64_Decode_lines)
    have eq: "?rest1 = ?T @ pemEndOfLine @ [0x0A] @ body @ pemEnd @ ?T @ pemEndOfLine @ [0x0A]"
      by (subst (2) pemEnd_split(1)) (simp add: b(1))
    show ?thesis
      by (simp only: eq pem_attempt_body [OF T b(2) hd sb dec] string_of_bytes_of_string)
  qed
  have "decode_from (tl pemStart @ ?rest1) = Some (\<lparr>Type = t, Headers = [], Bytes = bs\<rparr>, [])"
    by (subst decode_from.simps)
       (simp only: after_pemStart_Encode att option.case attempt.case)
  then show ?thesis
    by (simp only: enc pem_Decode_def option.case prod.case)
qed

section \<open>Keys: writing and parsing\<close>

lemma key_types_ok:
  "0x0A \<notin> set (bytes_of_string ''RSA PRIVATE KEY'')" "0x3A \<notin> set (bytes_of_string ''RSA PRIVATE KEY'')"
  "0x0A \<notin> set (bytes_of_string ''PUBLIC KEY'')" "0x3A \<notin> set (bytes_of_string ''PUBLIC KEY'')"
  by (simp_all add: bytes_of_string_def)

lemma ParsePrivateKey_Encode:
  assumes "valid_private_key k" "MarshalPKCS1PrivateKey k = Inr der" "length der < 2 ^ 31"
  shows "ParsePrivateKey (EncodeToMemory (private_key_block der)) = (Some k, None)"
  using pem_Decode_EncodeToMemory [OF key_types_ok(1,2), of der]
    ParsePKCS1PrivateKey_Marshal [OF assms]
  by (simp add: ParsePrivateKey_def private_key_block_def)

lemma MarshalPKIX_not_PKCS1:
  assumes "MarshalPKIXPublicKey pub = Inr der" "length der < 2 ^ 31"
  shows "ParsePKCS1PublicKey der = Inl ''x509: failed to parse public key''"
proof -
  let ?alg = "marshal_SEQUENCE (asn1_element TagOID oidPublicKeyRSA @ asn1_element TagNull [])"
  let ?bits = "asn1_element TagBitString (0x00 # marshal_pkcs1PublicKey pub)"
  from assms(1) have der: "der = marshal_SEQUENCE (?alg @ ?bits)"
    by (simp add: MarshalPKIXPublicKey_def Let_def)
  have lb: "length (?alg @ ?bits) < 2 ^ 31"
    using assms(2) length_asn1_element [of "?alg @ ?bits" TagSequence]
    by (simp add: der marshal_SEQUENCE_def)
  have la: "length (asn1_element TagOID oidPublicKeyRSA @ asn1_element TagNull []) < 2 ^ 31"
    by (simp add: asn1_element_def asn1_length_def oidPublicKeyRSA_def)
  have "parse_field_bigint (?alg @ ?bits) = None"
    using parse_element_ok [OF tag_ok(2) la, of ?bits]
    by (simp add: parse_field_bigint_def marshal_SEQUENCE_def TagSequence_def TagInteger_def)
  then have "unmarshal_pkcs1PublicKey der = None"
    using parse_element_ok [OF tag_ok(2) lb, of "[]"]
    by (simp add: unmarshal_pkcs1PublicKey_def der marshal_SEQUENCE_def)
  then show ?thesis by (simp add: ParsePKCS1PublicKey_def)
qed

lemma ParsePublicKey_Encode:
  assumes "MarshalPKIXPublicKey pub = Inr der" "length der < 2 ^ 31"
  shows "ParsePublicKey (EncodeToMemory (public_key_block der)) =
           (None, Some (New ''ParsePublicKey:failed to parse PEM block:x509: failed to parse public key''))"
  using pem_Decode_EncodeToMemory [OF key_types_ok(3,4), of der]
    MarshalPKIX_not_PKCS1 [OF assms]
  by (simp add: ParsePublicKey_def public_key_block_def CurrentFunctionName_def)

lemma file_Write_fits:
  assumes "map_of (open_files s) f = Some name" "files s name = Some old"
    "length b \<le> free_space s"
  shows "file_Write s f b =
           (s\<lparr>files := (files s)(name \<mapsto> old @ b), free_space := free_space s - length b\<rparr>, None)"
  using assms by (simp add: file_Write_def Let_def min_def)

lemma ParsePKCS1PublicKey_pkcs1:
  assumes "0 < N pub" "2 \<le> E pub" "E pub < 2 ^ 31"
    "length (marshal_pkcs1PublicKey pub) < 2 ^ 31"
  shows "ParsePKCS1PublicKey (marshal_pkcs1PublicKey pub) = Inr pub"
proof -
  let ?body = "marshal_INTEGER (N pub) @ marshal_INTEGER (E pub)"
  have lb: "length ?body < 2 ^ 31"
    using assms(4) length_asn1_element [of ?body TagSequence]
    by (simp add: marshal_pkcs1PublicKey_def marshal_SEQUENCE_def)
  have ln: "length (makeBigInt (N pub)) < 2 ^ 31"
    using lb length_marshal_INTEGER [of "N pub"] by simp
  have "unmarshal_pkcs1PublicKey (marshal_pkcs1PublicKey pub) = Some ((N pub, E pub), [])"
    using parse_element_ok [OF tag_ok(2) lb, of "[]"]
      parse_field_bigint_ok [OF _ ln, of "marshal_INTEGER (E pub)"]
      parse_field_int_ok [of "E pub" "[]"] assms(1-3)
    by (simp add: unmarshal_pkcs1PublicKey_def marshal_pkcs1PublicKey_def marshal_SEQUENCE_def)
  with assms(1-3) show ?thesis
    by (simp add: ParsePKCS1PublicKey_def)
qed

section \<open>The digest\<close>

lemma length_BePutUint32: "length (BePutUint32 v) = 4"
  by (simp add: BePutUint32_def)

lemma length_checkSum: "length (checkSum d) = 32"
  by (simp add: checkSum_def Let_def length_BePutUint32 split: prod.split)

lemma length_Sha256bytes2bytes: "length (Sha256bytes2bytes bs) = 32"
  by (simp add: Sha256bytes2bytes_def sha256_Sum_def length_checkSum)

text \<open>The model against the test vector of FIPS 180-4 for the message "abc".\<close>

lemma sha256_abc:
  "Sha256bytes2bytes (bytes_of_string ''abc'') =
     [0xba, 0x78, 0x16, 0xbf, 0x8f, 0x01, 0xcf, 0xea, 0x41, 0x41, 0x40, 0xde, 0x5d, 0xae, 0x22, 0x23,
      0xb0, 0x03, 0x61, 0xa3, 0x96, 0x17, 0x7a, 0x9c, 0xb4, 0x10, 0xff, 0x61, 0xf2, 0x00, 0x15, 0xad]"
  by code_simp

text \<open>
  C9: for every byte sequence \<open>B\<close>, \<open>Sha256bytes2bytes B\<close> has exactly 32 bytes
  (\<open>Size\<close>), and it depends on nothing but \<open>B\<close>: a second run on an equal input
  gives the equal output.
\<close>

theorem Sha256bytes2bytes_deterministic_32:
  "length (Sha256bytes2bytes B) = 32 \<and> length (Sha256bytes2bytes B) = Size \<and>
   (B' = B \<longrightarrow> Sha256bytes2bytes B' = Sha256bytes2bytes B)"
  by (simp add: length_Sha256bytes2bytes Size_def)

theorem Sha256bytes2bytes_deterministic_32_witness:
  "length (Sha256bytes2bytes [0x61, 0x62, 0x63]) = 32 \<and>
   Sha256bytes2bytes ([0x61, 0x62] @ [0x63]) = Sha256bytes2bytes [0x61, 0x62, 0x63]"
  using Sha256bytes2bytes_deterministic_32 [of "[0x61, 0x62, 0x63]" "[0x61, 0x62] @ [0x63]"]
  by simp

section \<open>Signing and verifying\<close>

text \<open>
  C5: for every digest \<open>d\<close> (nil or not) and whatever the library and the random
  source are, \<open>SignByteArray\<close> with a nil key returns a nil signature and a nil
  error.
\<close>

theorem SignByteArray_nil_key:
  "SignByteArray lib rand_Reader None d = (None, None)"
  by (simp add: SignByteArray_def)

text \<open>
  C6: \<open>VerifyByteArray\<close> fails with the nil-key error when the key is nil (whatever
  the signature is); with a key and a nil signature it fails with the nil-digest
  error; with a key and a signature it returns what \<open>VerifyPSS\<close> returns for the
  SHA-256 digest that it computes itself from the message, so it fails exactly when
  that check fails, with the error of the check.
\<close>

theorem VerifyByteArray_cases:
  "VerifyByteArray lib None s M = Some (New ''VerifyByteArray:Error, public key is nil'') \<and>
   VerifyByteArray lib (Some k) None M = Some (New ''VerifyByteArray:Error, digest is nil'') \<and>
   VerifyByteArray lib (Some k) (Some sg) M =
     map_option Foreign
       (VerifyPSS lib k SHA256 (Sha256bytes2bytes (bytes_of_string M)) sg opts_auto) \<and>
   ((VerifyByteArray lib (Some k) (Some sg) M = None) =
    (VerifyPSS lib k SHA256 (Sha256bytes2bytes (bytes_of_string M)) sg opts_auto = None))"
  by (simp add: VerifyByteArray_def CurrentFunctionName_def)

text \<open>
  C7: \<open>VerifyBase64String\<close> returns the encoding error exactly when
  \<open>DecodeString\<close> rejects \<open>b64\<close>, and otherwise what \<open>VerifyByteArray\<close> returns
  for the decoded bytes, a slice that is not nil.
\<close>

theorem VerifyBase64String_cases:
  "((VerifyBase64String lib key b64 M =
       Some (New ''VerifyBase64String:Error, decoding base64 string'')) =
    (\<exists>e. DecodeString b64 = Inl e)) \<and>
   (case DecodeString b64 of
      Inl e \<Rightarrow> True
    | Inr sg \<Rightarrow> VerifyBase64String lib key b64 M = VerifyByteArray lib key (Some sg) M)"
  by (cases "DecodeString b64"; cases key)
     (auto simp: VerifyBase64String_def VerifyByteArray_def CurrentFunctionName_def)

section \<open>Key pairs\<close>

text \<open>
  C10: when \<open>CreateRSAKeyPair\<close> returns no error, it returns a private key and a
  public key, and the public key is the \<open>PublicKey\<close> component of the private key:
  the same modulus and the same exponent.
\<close>

theorem CreateRSAKeyPair_consistent:
  assumes "CreateRSAKeyPair lib rand_Reader = (priv, pub, None)"
  shows "\<exists>k. priv = Some k \<and> pub = Some (PublicKey k) \<and>
             N (the pub) = N (PublicKey k) \<and> E (the pub) = E (PublicKey k)"
  using assms by (auto simp: CreateRSAKeyPair_def split: sum.splits)

theorem CreateRSAKeyPair_consistent_witness:
  "CreateRSAKeyPair tiny_rsa () = (Some tiny_key, Some \<lparr>N = 15, E = 3\<rparr>, None) \<and>
   (\<exists>k. Some tiny_key = Some k \<and> Some \<lparr>N = 15, E = 3\<rparr> = Some (PublicKey k))"
proof -
  have run: "CreateRSAKeyPair tiny_rsa () = (Some tiny_key, Some \<lparr>N = 15, E = 3\<rparr>, None)"
    by (simp add: CreateRSAKeyPair_def tiny_rsa_def tiny_key_def)
  from CreateRSAKeyPair_consistent [OF run] run show ?thesis by simp
qed

section \<open>Key pair files\<close>

text \<open>
  C4: when a file exists at \<open>P\<close> or at \<open>P\<close> followed by \<open>.pub\<close>,
  \<open>CreateRSAKeyPair2File\<close> returns the already-exists error and the state of the
  file system it was given: no file is created, truncated or written, no handle is
  opened.
\<close>

theorem CreateRSAKeyPair2File_existing:
  assumes "files s P \<noteq> None \<or> files s (P @ ''.pub'') \<noteq> None"
  shows "CreateRSAKeyPair2File lib rand_Reader s P =
           (s, Some (New ((if files s P \<noteq> None then ''Private'' else ''Public'') @
                          '' key file '' @ P @ '' already exists.'')))"
  using assms
  by (auto simp: CreateRSAKeyPair2File_def os_Stat_def publicKeyFileSuffix_def
           split: option.splits)

theorem CreateRSAKeyPair2File_existing_witness:
  "files \<lparr>files = [''key.pub'' \<mapsto> [1]], open_files = [], next_fd = 3,
           no_create = {}, free_space = 4096\<rparr> (''key'' @ ''.pub'') = Some [1] \<and>
   CreateRSAKeyPair2File tiny_rsa ()
     \<lparr>files = [''key.pub'' \<mapsto> [1]], open_files = [], next_fd = 3,
      no_create = {}, free_space = 4096\<rparr> ''key'' =
     (\<lparr>files = [''key.pub'' \<mapsto> [1]], open_files = [], next_fd = 3,
       no_create = {}, free_space = 4096\<rparr>,
      Some (New ''Public key file key already exists.''))"
proof -
  let ?s = "\<lparr>files = [''key.pub'' \<mapsto> [1::byte]], open_files = [], next_fd = 3,
             no_create = {}, free_space = 4096\<rparr>"
  have h: "files ?s ''key'' \<noteq> None \<or> files ?s (''key'' @ ''.pub'') \<noteq> None"
    by simp
  from CreateRSAKeyPair2File_existing [OF h, of tiny_rsa "()"] h show ?thesis
    by simp
qed

text \<open>
  C2 fails on the path where the second \<open>os.Create\<close> fails: neither file exists,
  \<open>key\<close> can be created and \<open>key.pub\<close> cannot. The function returns the error
  of the second \<open>os.Create\<close> before its \<open>defer\<close> statements, and the handle 3
  that the first \<open>os.Create\<close> opened on \<open>key\<close> is still open in the state it
  leaves.
\<close>

theorem CreateRSAKeyPair2File_leaves_handle_open:
  "CreateRSAKeyPair2File tiny_rsa ()
     \<lparr>files = Map.empty, open_files = [], next_fd = 3,
      no_create = {''key.pub''}, free_space = 4096\<rparr> ''key'' =
     (\<lparr>files = [''key'' \<mapsto> []], open_files = [(3, ''key'')], next_fd = 4,
       no_create = {''key.pub''}, free_space = 4096\<rparr>,
      Some (New ''Error creating private key file key:open key.pub: permission denied'')) \<and>
   is_open \<lparr>files = [''key'' \<mapsto> []], open_files = [(3, ''key'')], next_fd = 4,
            no_create = {''key.pub''}, free_space = 4096\<rparr> 3"
  by (simp add: CreateRSAKeyPair2File_def os_Stat_def os_Create_def publicKeyFileSuffix_def
                is_open_def)

end
